theory Spec2Isabelle
  imports Main
begin

section \<open>Python values used by EXIFDataDailyReport.py\<close>

text \<open>
  The script scans the folders under a root path, reads the capture time of every image
  from its EXIF block, sorts the records by time of day, groups them into cycles
  separated by gaps of at least 60 seconds, and writes the reports of two categories
  side by side. The model follows \<^verbatim>\<open>process_folder\<close> line by line; of the main
  block it holds the merge of the two summaries (the prompts are not modelled).

  Strings are \<^typ>\<open>string\<close>, lists of 8-bit characters: a character stands for the
  code point of its number, so the model covers text of code points below 256, which is
  what the decoding of an EXIF text field delivers. Paths are POSIX paths. The
  exceptions the script can raise outside its \<^verbatim>\<open>try\<close> block are values of
  \<open>py_error\<close>; a computation that may raise returns \<open>py_error + 'a\<close>.
\<close>

datatype py_error = ValueError | IndexError

subsection \<open>Rendering integers: \<^verbatim>\<open>str(n)\<close>, \<^verbatim>\<open>"%02d"\<close>, \<^verbatim>\<open>str(timedelta)\<close>\<close>

definition digit_char :: "nat \<Rightarrow> char" where
  "digit_char d = ''0123456789'' ! d"

function str_nat :: "nat \<Rightarrow> string" where
  "str_nat n = (if n < 10 then [digit_char n] else str_nat (n div 10) @ [digit_char (n mod 10)])"
  by pat_completeness auto
termination
  by (relation "measure (\<lambda>n. n)") auto

declare str_nat.simps [simp del]

definition str_int :: "int \<Rightarrow> string" where
  "str_int i = (if i < 0 then CHR ''-'' # str_nat (nat (- i)) else str_nat (nat i))"

text \<open>\<^verbatim>\<open>"%02d" % n\<close> for a non-negative \<open>n\<close>.\<close>

definition pad2 :: "nat \<Rightarrow> string" where
  "pad2 n = (if n < 10 then CHR ''0'' # str_nat n else str_nat n)"

text \<open>
  A \<^verbatim>\<open>timedelta\<close> without microseconds is its number of seconds, an \<^typ>\<open>int\<close>.
  \<^verbatim>\<open>str\<close> of it normalises to days and \<open>0 \<le> seconds < 86400\<close> and prints
  \<^verbatim>\<open>"%d:%02d:%02d"\<close>, with \<^verbatim>\<open>"N day(s), "\<close> in front when the days are not zero.
\<close>

definition str_timedelta :: "int \<Rightarrow> string" where
  "str_timedelta d =
     (let days = d div 86400;
          seconds = nat (d mod 86400);
          mm = seconds div 60;
          ss = seconds mod 60;
          hh = mm div 60;
          s = str_nat hh @ '':'' @ pad2 (mm mod 60) @ '':'' @ pad2 ss
      in if days \<noteq> 0
         then str_int days @ '' day'' @ (if \<bar>days\<bar> \<noteq> 1 then ''s'' else '''') @ '', '' @ s
         else s)"

subsection \<open>\<^verbatim>\<open>datetime.strptime(s, '%H:%M:%S')\<close>\<close>

text \<open>
  The format's regular expression reads one or two digits for each field, hours up to 23,
  minutes up to 59, seconds up to 61 (of which 60 and 61 are then refused by the
  \<^verbatim>\<open>datetime\<close> constructor), separated by colons, and the whole string must be
  consumed; everything else raises \<^verbatim>\<open>ValueError\<close>. The result is a \<^verbatim>\<open>datetime\<close> on
  1900-01-01; since every \<^verbatim>\<open>datetime\<close> of the script is on that day, it is modelled by
  its number of seconds since midnight.
\<close>

definition is_digit :: "char \<Rightarrow> bool" where
  "is_digit c = (48 \<le> (of_char c :: nat) \<and> (of_char c :: nat) \<le> 57)"

definition digit_val :: "char \<Rightarrow> nat" where
  "digit_val c = of_char c - 48"

fun take_num :: "string \<Rightarrow> (nat \<times> string) option" where
  "take_num [] = None"
| "take_num [a] = (if is_digit a then Some (digit_val a, []) else None)"
| "take_num (a # b # rest) =
     (if is_digit a \<and> is_digit b then Some (10 * digit_val a + digit_val b, rest)
      else if is_digit a then Some (digit_val a, b # rest)
      else None)"

fun expect_colon :: "string \<Rightarrow> string option" where
  "expect_colon [] = None"
| "expect_colon (c # rest) = (if c = CHR '':'' then Some rest else None)"

definition strptime :: "string \<Rightarrow> py_error + nat" where
  "strptime s =
     (case take_num s of None \<Rightarrow> Inl ValueError | Some (h, r1) \<Rightarrow>
      case expect_colon r1 of None \<Rightarrow> Inl ValueError | Some r2 \<Rightarrow>
      case take_num r2 of None \<Rightarrow> Inl ValueError | Some (m, r3) \<Rightarrow>
      case expect_colon r3 of None \<Rightarrow> Inl ValueError | Some r4 \<Rightarrow>
      case take_num r4 of None \<Rightarrow> Inl ValueError | Some (sec, r5) \<Rightarrow>
      if r5 = [] \<and> h \<le> 23 \<and> m \<le> 59 \<and> sec \<le> 59
      then Inr (3600 * h + 60 * m + sec)
      else Inl ValueError)"

section \<open>The records of \<^verbatim>\<open>process_folder\<close>\<close>

text \<open>
  \<^verbatim>\<open>props\<close> is the dictionary built for each image. The keys \<^verbatim>\<open>CycleCount\<close> and
  \<^verbatim>\<open>CycleTotalHour\<close> are absent until the analysis assigns them: they are options.
\<close>

record props =
  DateTaken :: string
  TimeTaken :: string
  Image :: string
  Pole :: string
  Type :: string
  CycleCount :: "string option"
  CycleTotalHour :: "string option"

text \<open>The variables of the analysis loop (lines 51 to 76).\<close>

record walk_state =
  metadata :: "props list"
  cycle_count :: nat
  cycle_start_time :: "nat option"
  total_cycle_duration :: int

text \<open>\<^verbatim>\<open>datetime.strptime(metadata[i]['TimeTaken'], '%H:%M:%S')\<close> for \<open>0 \<le> i\<close>.\<close>

definition time_at :: "props list \<Rightarrow> nat \<Rightarrow> py_error + nat" where
  "time_at md i = (if i < length md then strptime (TimeTaken (md ! i)) else Inl IndexError)"

text \<open>The key of the sort on line 48, on a record whose time parses.\<close>

definition secs :: "props \<Rightarrow> nat" where
  "secs r = (case strptime (TimeTaken r) of Inr t \<Rightarrow> t | Inl e \<Rightarrow> 0)"

definition parses :: "props \<Rightarrow> bool" where
  "parses r = (case strptime (TimeTaken r) of Inr t \<Rightarrow> True | Inl e \<Rightarrow> False)"

text \<open>
  Line 48: \<^verbatim>\<open>metadata.sort(key=...)\<close> computes the key of every record first, so one
  unparseable time raises; otherwise the sort is stable, as \<^const>\<open>sort_key\<close> is.
\<close>

definition sort_metadata :: "props list \<Rightarrow> py_error + props list" where
  "sort_metadata md = (if list_all parses md then Inr (sort_key secs md) else Inl ValueError)"

definition cycle_label :: "nat \<Rightarrow> string" where
  "cycle_label n = ''CYCLE '' @ str_nat n"

text \<open>One iteration of the loop of lines 54 to 68, for the index \<open>i\<close>.\<close>

definition walk_step :: "nat \<Rightarrow> walk_state \<Rightarrow> py_error + walk_state" where
  "walk_step i s =
     (case time_at (metadata s) i of Inl e \<Rightarrow> Inl e | Inr ti \<Rightarrow>
      case time_at (metadata s) (i - 1) of Inl e \<Rightarrow> Inl e | Inr tp \<Rightarrow>
      let time_difference = int ti - int tp in
      if time_difference \<ge> 60 then
        (let md1 = (metadata s)[i - 1 :=
                     (metadata s ! (i - 1))\<lparr>CycleCount := Some (cycle_label (cycle_count s))\<rparr>]
         in case cycle_start_time s of
              None \<Rightarrow>
                Inr (s\<lparr>metadata := md1,
                       cycle_count := cycle_count s + 1,
                       cycle_start_time := None\<rparr>)
            | Some st \<Rightarrow>
                (case time_at md1 (i - 1) of Inl e \<Rightarrow> Inl e | Inr cycle_end_time \<Rightarrow>
                 let cycle_duration = int cycle_end_time - int st in
                 Inr (s\<lparr>metadata := md1[i - 1 :=
                                 (md1 ! (i - 1))\<lparr>CycleTotalHour := Some (str_timedelta cycle_duration)\<rparr>],
                        total_cycle_duration := total_cycle_duration s + cycle_duration,
                        cycle_count := cycle_count s + 1,
                        cycle_start_time := None\<rparr>)))
      else
        (case cycle_start_time s of
           None \<Rightarrow> Inr (s\<lparr>cycle_start_time := Some tp\<rparr>)
         | Some st \<Rightarrow> Inr s))"

text \<open>The loop over \<^verbatim>\<open>range(1, len(metadata))\<close>, a list of indices computed once.\<close>

fun walk :: "nat list \<Rightarrow> walk_state \<Rightarrow> py_error + walk_state" where
  "walk [] s = Inr s"
| "walk (i # is) s = (case walk_step i s of Inl e \<Rightarrow> Inl e | Inr s' \<Rightarrow> walk is s')"

text \<open>Lines 51 to 53: the variables before the loop.\<close>

definition init_state :: "props list \<Rightarrow> walk_state" where
  "init_state md =
     \<lparr>metadata = md, cycle_count = 1, cycle_start_time = None, total_cycle_duration = 0\<rparr>"

text \<open>
  Lines 71 to 76: the last record closes a cycle that is still open.
  \<^verbatim>\<open>metadata[-1]\<close> raises \<^verbatim>\<open>IndexError\<close> on an empty list.
\<close>

definition close_last :: "walk_state \<Rightarrow> py_error + walk_state" where
  "close_last s =
     (case cycle_start_time s of
        None \<Rightarrow> Inr s
      | Some st \<Rightarrow>
          (if metadata s = [] then Inl IndexError else
           let l = length (metadata s) - 1 in
           case time_at (metadata s) l of Inl e \<Rightarrow> Inl e | Inr cycle_end_time \<Rightarrow>
           let cycle_duration = int cycle_end_time - int st;
               md1 = (metadata s)[l := (metadata s ! l)\<lparr>CycleCount := Some (cycle_label (cycle_count s))\<rparr>];
               md2 = md1[l := (md1 ! l)\<lparr>CycleTotalHour := Some (str_timedelta cycle_duration)\<rparr>]
           in Inr (s\<lparr>metadata := md2,
                     total_cycle_duration := total_cycle_duration s + cycle_duration\<rparr>)))"

text \<open>Lines 47 to 76: sort, walk, close.\<close>

definition segment :: "props list \<Rightarrow> py_error + walk_state" where
  "segment md =
     (case sort_metadata md of Inl e \<Rightarrow> Inl e | Inr sm \<Rightarrow>
      case walk [1..<length sm] (init_state sm) of Inl e \<Rightarrow> Inl e | Inr s \<Rightarrow>
      close_last s)"

text \<open>
  Lines 78 to 82: the span between the first and the last record of the sorted list.
  \<^verbatim>\<open>metadata[-1]\<close> and \<^verbatim>\<open>metadata[0]\<close> raise \<^verbatim>\<open>IndexError\<close> on an empty list.
  The span is rendered into \<^verbatim>\<open>total_time_formatted\<close>, which the script never prints
  or returns.
\<close>

definition time_span :: "props list \<Rightarrow> py_error + int" where
  "time_span md =
     (if md = [] then Inl IndexError else
      case time_at md (length md - 1) of Inl e \<Rightarrow> Inl e | Inr t_last \<Rightarrow>
      case time_at md 0 of Inl e \<Rightarrow> Inl e | Inr t_first \<Rightarrow>
      Inr (int t_last - int t_first))"

text \<open>\<^verbatim>\<open>"{:02}".format(i)\<close> for an integer: the sign counts in the width.\<close>

definition fmt02 :: "int \<Rightarrow> string" where
  "fmt02 i = (if 0 \<le> i then pad2 (nat i) else CHR ''-'' # str_nat (nat (- i)))"

definition format_hms :: "int \<Rightarrow> string" where
  "format_hms d =
     (let total_hours = d div 3600;
          remainder = d mod 3600;
          total_minutes = remainder div 60;
          total_seconds = remainder mod 60
      in fmt02 total_hours @ '':'' @ fmt02 total_minutes @ '':'' @ fmt02 total_seconds)"

record analysis =
  final :: walk_state
  total_time_difference :: int
  total_time_formatted :: string

text \<open>Lines 47 to 82.\<close>

definition analyse :: "props list \<Rightarrow> py_error + analysis" where
  "analyse md =
     (case segment md of Inl e \<Rightarrow> Inl e | Inr s \<Rightarrow>
      case time_span (metadata s) of Inl e \<Rightarrow> Inl e | Inr d \<Rightarrow>
      Inr \<lparr>final = s, total_time_difference = d, total_time_formatted = format_hms d\<rparr>)"

subsection \<open>The summary table (lines 91 to 104)\<close>

datatype cell = CStr string | CInt int

definition data_row :: "props \<Rightarrow> cell list" where
  "data_row data =
     [CStr (DateTaken data), CStr (TimeTaken data), CStr (Image data), CStr (Pole data),
      CStr (case CycleCount data of None \<Rightarrow> [] | Some l \<Rightarrow> l),
      CStr (case CycleTotalHour data of None \<Rightarrow> [] | Some d \<Rightarrow> d)]"

definition build_summary :: "string \<Rightarrow> nat \<Rightarrow> walk_state \<Rightarrow> py_error + cell list list" where
  "build_summary folder_type n_folders s =
     (if metadata s = [] then Inl IndexError else
      Inr ([[CStr (folder_type @ '' Data Capture (Pole)''), CInt (int n_folders)],
            [CStr (folder_type @ '' Start Time''), CStr (TimeTaken (hd (metadata s)))],
            [CStr (folder_type @ '' End Time''), CStr (TimeTaken (last (metadata s)))],
            [CStr (folder_type @ '' Hours Data Capture (By Battery Cycle)''),
             CStr (str_timedelta (total_cycle_duration s))],
            [CStr (folder_type @ '' Battery Cycles''), CInt (int (cycle_count s))],
            [],
            [CStr ''DateTaken'', CStr ''TimeTaken'', CStr ''Image'', CStr ''Pole'',
             CStr ''CycleCount'', CStr ''CycleTotalHour'']]
           @ map data_row (metadata s)))"

text \<open>Lines 47 to 104 on a metadata list: what \<^verbatim>\<open>process_folder\<close> returns.\<close>

definition report :: "string \<Rightarrow> nat \<Rightarrow> props list \<Rightarrow> py_error + cell list list" where
  "report folder_type n_folders md =
     (case analyse md of Inl e \<Rightarrow> Inl e | Inr a \<Rightarrow> build_summary folder_type n_folders (final a))"

section \<open>Scanning the folders (lines 10 to 45)\<close>

subsection \<open>POSIX paths\<close>

definition sep :: char where
  "sep = CHR ''/''"

text \<open>\<^verbatim>\<open>os.path.join(a, b)\<close>.\<close>

definition path_join :: "string \<Rightarrow> string \<Rightarrow> string" where
  "path_join a b =
     (if b \<noteq> [] \<and> hd b = sep then b
      else if a = [] \<or> last a = sep then a @ b
      else a @ sep # b)"

text \<open>\<^verbatim>\<open>p.rfind('/') + 1\<close>: the length of the part up to and including the last separator.\<close>

definition head_len :: "string \<Rightarrow> nat" where
  "head_len p = length p - length (takeWhile (\<lambda>c. c \<noteq> sep) (rev p))"

definition rstrip_sep :: "string \<Rightarrow> string" where
  "rstrip_sep s = rev (dropWhile (\<lambda>c. c = sep) (rev s))"

definition dirname :: "string \<Rightarrow> string" where
  "dirname p =
     (let head = take (head_len p) p
      in if head \<noteq> [] \<and> head \<noteq> replicate (length head) sep then rstrip_sep head else head)"

definition basename :: "string \<Rightarrow> string" where
  "basename p = drop (head_len p) p"

subsection \<open>\<^verbatim>\<open>str.lower\<close>, \<^verbatim>\<open>str.endswith\<close>, \<^verbatim>\<open>str.split\<close> on code points below 256\<close>

text \<open>
  The capital letters below 256 are A to Z and the accented capitals 192 to 222 without
  the multiplication sign 215; each has its small letter 32 places further.
\<close>

definition is_upper :: "char \<Rightarrow> bool" where
  "is_upper c =
     ((65 \<le> (of_char c :: nat) \<and> (of_char c :: nat) \<le> 90) \<or>
      (192 \<le> (of_char c :: nat) \<and> (of_char c :: nat) \<le> 214) \<or>
      (216 \<le> (of_char c :: nat) \<and> (of_char c :: nat) \<le> 222))"

definition lower_char :: "char \<Rightarrow> char" where
  "lower_char c = (if is_upper c then char_of (of_char c + 32 :: nat) else c)"

definition lower :: "string \<Rightarrow> string" where
  "lower s = map lower_char s"

definition endswith :: "string \<Rightarrow> string \<Rightarrow> bool" where
  "endswith s suffix = (length suffix \<le> length s \<and> drop (length s - length suffix) s = suffix)"

text \<open>
  The white space of \<^verbatim>\<open>str.split()\<close> below 256: tab to carriage return, the four
  separators 28 to 31, the space, the next-line character 133 and the no-break space 160.
\<close>

definition is_space :: "char \<Rightarrow> bool" where
  "is_space c = ((of_char c :: nat) \<in> {9, 10, 11, 12, 13, 28, 29, 30, 31, 32, 133, 160})"

text \<open>\<^verbatim>\<open>s.split()\<close>: the maximal runs of characters that are not white space.\<close>

fun split_acc :: "string \<Rightarrow> string \<Rightarrow> string list" where
  "split_acc w [] = (if w = [] then [] else [rev w])"
| "split_acc w (c # cs) =
     (if is_space c then (if w = [] then split_acc [] cs else rev w # split_acc [] cs)
      else split_acc (c # w) cs)"

definition split :: "string \<Rightarrow> string list" where
  "split s = split_acc [] s"

subsection \<open>The directory tree and \<^verbatim>\<open>os.walk\<close>\<close>

text \<open>
  A directory holds its subdirectories, by name, and the names of its files, in the order
  the operating system lists them. \<^verbatim>\<open>os.walk\<close> yields the directory itself first and
  then walks each subdirectory, top-down.
\<close>

datatype dir = Dir (subdirs: "(string \<times> dir) list") (files: "string list")

fun os_walk :: "string \<Rightarrow> dir \<Rightarrow> (string \<times> string list \<times> string list) list" where
  "os_walk root (Dir subs fs) =
     (root, map fst subs, fs) # concat (map (\<lambda>p. os_walk (path_join root (fst p)) (snd p)) subs)"

text \<open>Lines 16 to 18.\<close>

definition is_jpg :: "string \<Rightarrow> bool" where
  "is_jpg f = endswith (lower f) ''.jpg''"

definition folders_of :: "(string \<times> string list \<times> string list) list \<Rightarrow> string list" where
  "folders_of w = concat (map (\<lambda>(root, dirs, fs). map (path_join root) dirs) w)"

definition images_of :: "(string \<times> string list \<times> string list) list \<Rightarrow> string list" where
  "images_of w = concat (map (\<lambda>(root, dirs, fs). map (path_join root) (filter is_jpg fs)) w)"

subsection \<open>Reading the images\<close>

text \<open>
  What lines 29 to 31 do to one image path is given by the environment: either an
  exception with its message, or the value of \<^verbatim>\<open>exif_data.get(36867)\<close>, which is
  \<^verbatim>\<open>None\<close> when the tag is absent. What the script writes is a list of outputs: the
  lines it prints and the stack traces of \<^verbatim>\<open>traceback.print_exc()\<close>.
\<close>

datatype exif_read = Raises string | DateTimeOriginal "string option"

datatype written = Printed string | Traceback string

record scan_state =
  found :: "props list"
  log :: "written list"

text \<open>Lines 38 to 44: the dictionary of a new record, with no cycle keys yet.\<close>

definition new_props :: "string \<Rightarrow> string \<Rightarrow> string \<Rightarrow> string \<Rightarrow> string \<Rightarrow> props" where
  "new_props date time image_name pole folder_type =
     \<lparr>DateTaken = date, TimeTaken = time, Image = image_name, Pole = pole, Type = folder_type,
      CycleCount = None, CycleTotalHour = None\<rparr>"

text \<open>
  Lines 26 to 45 for one image; \<open>found\<close> is the list \<^verbatim>\<open>metadata\<close> under construction.
  The unpacking of line 36 is outside the \<^verbatim>\<open>try\<close> block: when it raises, the exception
  leaves the function, and what has been written so far stays written. An exception is
  therefore returned with the state at the moment it was raised.
\<close>

definition read_image ::
  "(string \<Rightarrow> exif_read) \<Rightarrow> string \<Rightarrow> string \<Rightarrow> string \<Rightarrow> scan_state
     \<Rightarrow> (py_error \<times> scan_state) + scan_state" where
  "read_image exif folder_type folder image_path st =
     (case exif image_path of
        Raises e \<Rightarrow>
          Inr (st\<lparr>log := log st @
                 [Printed (''Error processing image '' @ [CHR 0x27] @ image_path @ [CHR 0x27] @ '': '' @ e),
                  Traceback e]\<rparr>)
      | DateTimeOriginal None \<Rightarrow> Inr st
      | DateTimeOriginal (Some date_taken) \<Rightarrow>
          (if date_taken = [] then Inr st else
           case split date_taken of
             [date, time] \<Rightarrow>
               Inr (st\<lparr>found := found st @
                      [new_props date time (basename image_path) (basename folder) folder_type]\<rparr>)
           | _ \<Rightarrow> Inl (ValueError, st)))"

fun scan_images ::
  "(string \<Rightarrow> exif_read) \<Rightarrow> string \<Rightarrow> string \<Rightarrow> string list \<Rightarrow> scan_state
     \<Rightarrow> (py_error \<times> scan_state) + scan_state" where
  "scan_images exif folder_type folder [] st = Inr st"
| "scan_images exif folder_type folder (image_path # rest) st =
     (case read_image exif folder_type folder image_path st of
        Inl raised \<Rightarrow> Inl raised
      | Inr st' \<Rightarrow> scan_images exif folder_type folder rest st')"

text \<open>Line 23: the images of one folder.\<close>

definition folder_images :: "string list \<Rightarrow> string \<Rightarrow> string list" where
  "folder_images images folder = filter (\<lambda>image_path. dirname image_path = folder) images"

fun scan_folders ::
  "(string \<Rightarrow> exif_read) \<Rightarrow> string \<Rightarrow> string list \<Rightarrow> string list \<Rightarrow> scan_state
     \<Rightarrow> (py_error \<times> scan_state) + scan_state" where
  "scan_folders exif folder_type images [] st = Inr st"
| "scan_folders exif folder_type images (folder # rest) st =
     (case scan_images exif folder_type folder (folder_images images folder) st of
        Inl raised \<Rightarrow> Inl raised
      | Inr st' \<Rightarrow> scan_folders exif folder_type images rest st')"

text \<open>Lines 10 to 45: the tree under \<^verbatim>\<open>parent_folder\<close> is \<open>tree\<close>.\<close>

definition scan ::
  "dir \<Rightarrow> (string \<Rightarrow> exif_read) \<Rightarrow> string \<Rightarrow> string \<Rightarrow> (py_error \<times> scan_state) + scan_state" where
  "scan tree exif parent_folder folder_type =
     (let w = os_walk parent_folder tree
      in scan_folders exif folder_type (images_of w) (folders_of w) \<lparr>found = [], log = []\<rparr>)"

text \<open>Lines 85 to 89: the five lines printed; \<^verbatim>\<open>print\<close> joins its two arguments with a space.\<close>

definition printed_results :: "string \<Rightarrow> nat \<Rightarrow> walk_state \<Rightarrow> written list" where
  "printed_results folder_type n_folders s =
     [Printed (folder_type @ '' Data Capture (Pole): '' @ str_nat n_folders),
      Printed (folder_type @ '' Start Time: '' @ TimeTaken (hd (metadata s))),
      Printed (folder_type @ '' End Time: '' @ TimeTaken (last (metadata s))),
      Printed (folder_type @ '' Hours Data Capture (By Battery Cycle): ''
               @ str_timedelta (total_cycle_duration s)),
      Printed (folder_type @ '' Battery Cycles: '' @ str_nat (cycle_count s))]"

text \<open>
  \<^verbatim>\<open>process_folder\<close>: what it has written, and the summary it returns or the exception
  that ends it. After line 79 the list is not empty, so that lines 86 to 104 do not
  raise. The progress bars are not part of the model.
\<close>

definition process_folder ::
  "dir \<Rightarrow> (string \<Rightarrow> exif_read) \<Rightarrow> string \<Rightarrow> string
     \<Rightarrow> written list \<times> (py_error + cell list list)" where
  "process_folder tree exif parent_folder folder_type =
     (let n_folders = length (folders_of (os_walk parent_folder tree)) in
      case scan tree exif parent_folder folder_type of
        Inl (e, st) \<Rightarrow> (log st, Inl e)
      | Inr st \<Rightarrow>
          (case analyse (found st) of
             Inl e \<Rightarrow> (log st, Inl e)
           | Inr a \<Rightarrow>
               (if metadata (final a) = []
                then (log st @ take 1 (printed_results folder_type n_folders (final a)),
                      Inl IndexError)
                else (log st @ printed_results folder_type n_folders (final a),
                      build_summary folder_type n_folders (final a)))))"

section \<open>Writing the two reports side by side (lines 126 to 146)\<close>

function extend_summary :: "nat \<Rightarrow> cell list list \<Rightarrow> cell list list" where
  "extend_summary max_length summary =
     (if length summary < max_length
      then extend_summary max_length (summary @ [replicate 6 (CStr [])])
      else summary)"
  by pat_completeness auto
termination
  by (relation "measure (\<lambda>(max_length, summary). max_length - length summary)") auto

declare extend_summary.simps [simp del]

definition csv_rows :: "cell list list \<Rightarrow> cell list list \<Rightarrow> cell list list" where
  "csv_rows visual_summary thermal_summary =
     (let max_length = max (length visual_summary) (length thermal_summary);
          visual_summary' = extend_summary max_length visual_summary;
          thermal_summary' = extend_summary max_length thermal_summary
      in map (\<lambda>(v_row, t_row). v_row @ replicate 2 (CStr []) @ t_row)
           (zip visual_summary' thermal_summary'))"

section \<open>Cycles, described on the list of sorted times\<close>

text \<open>
  The notions below are not part of the script: they say, on the list \<open>ts\<close> of the times
  of the sorted records (seconds since midnight), what the properties are about. The
  pair \<open>i\<close> is the pair of the records \<open>i - 1\<close> and \<open>i\<close>, for \<open>1 \<le> i < length ts\<close>.
\<close>

definition gap :: "nat list \<Rightarrow> nat \<Rightarrow> int" where
  "gap ts i = int (ts ! i) - int (ts ! (i - 1))"

text \<open>A boundary is a pair whose gap is at least 60 seconds.\<close>

definition boundary :: "nat list \<Rightarrow> nat \<Rightarrow> bool" where
  "boundary ts i = (60 \<le> gap ts i)"

text \<open>The number of boundaries among the pairs \<open>1, \<dots>, k\<close>.\<close>

definition boundaries_upto :: "nat list \<Rightarrow> nat \<Rightarrow> nat" where
  "boundaries_upto ts k = length (filter (boundary ts) [1..<Suc k])"

text \<open>
  The first record of the cycle that holds the record \<open>j\<close>: the record itself when the
  pair \<open>j\<close> is a boundary (or \<open>j = 0\<close>), and otherwise the first record of the cycle of
  the record before. When it is not \<open>j\<close> itself, it is the record \<open>i - 1\<close> of the first
  pair \<open>i\<close> of the cycle, all of whose gaps are below 60 seconds: the record whose time
  the loop keeps as the cycle-start marker.
\<close>

primrec cycle_first :: "nat list \<Rightarrow> nat \<Rightarrow> nat" where
  "cycle_first ts 0 = 0"
| "cycle_first ts (Suc j) = (if boundary ts (Suc j) then Suc j else cycle_first ts j)"

text \<open>The time from the first record of the cycle of \<open>j\<close> to the record \<open>j\<close>.\<close>

definition span_of :: "nat list \<Rightarrow> nat \<Rightarrow> int" where
  "span_of ts j = int (ts ! j) - int (ts ! cycle_first ts j)"

text \<open>The cycle-start marker once the pairs \<open>1, \<dots>, k\<close> are done.\<close>

definition marker_after :: "nat list \<Rightarrow> nat \<Rightarrow> nat option" where
  "marker_after ts k = (if cycle_first ts k < k then Some (ts ! cycle_first ts k) else None)"

text \<open>
  The record \<open>j\<close> ends a cycle when it is the last record or the pair after it is a
  boundary. The duration assigned to it, if any: the cycle must hold a record before it.
\<close>

definition closes :: "nat list \<Rightarrow> nat \<Rightarrow> bool" where
  "closes ts j = (Suc j = length ts \<or> boundary ts (Suc j))"

definition assigned_duration :: "nat list \<Rightarrow> nat \<Rightarrow> int option" where
  "assigned_duration ts j =
     (if closes ts j \<and> cycle_first ts j < j then Some (span_of ts j) else None)"

subsection \<open>The states of the loop in closed form\<close>

text \<open>The record \<open>j\<close> of the list \<open>sm\<close> once the pairs \<open>1, \<dots>, k\<close> are done.\<close>

definition annot :: "props list \<Rightarrow> nat \<Rightarrow> nat \<Rightarrow> props" where
  "annot sm k j =
     (if j < k \<and> boundary (map secs sm) (Suc j) then
        (sm ! j)\<lparr>CycleCount := Some (cycle_label (Suc (boundaries_upto (map secs sm) j))),
                CycleTotalHour :=
                  (if cycle_first (map secs sm) j < j
                   then Some (str_timedelta (span_of (map secs sm) j))
                   else CycleTotalHour (sm ! j))\<rparr>
      else sm ! j)"

definition total_upto :: "nat list \<Rightarrow> nat \<Rightarrow> int" where
  "total_upto ts k =
     (\<Sum>j<k. if boundary ts (Suc j) \<and> cycle_first ts j < j then span_of ts j else 0)"

definition state_after :: "props list \<Rightarrow> nat \<Rightarrow> walk_state" where
  "state_after sm k =
     \<lparr>metadata = map (annot sm k) [0..<length sm],
      cycle_count = Suc (boundaries_upto (map secs sm) k),
      cycle_start_time = marker_after (map secs sm) k,
      total_cycle_duration = total_upto (map secs sm) k\<rparr>"

text \<open>The state after the loop and the closing step.\<close>

definition final_state :: "props list \<Rightarrow> walk_state" where
  "final_state sm =
     (let l = length sm - 1; ts = map secs sm; s = state_after sm l
      in if cycle_first ts l < l
         then s\<lparr>metadata := (metadata s)[l :=
                   (sm ! l)\<lparr>CycleCount := Some (cycle_label (cycle_count s)),
                            CycleTotalHour := Some (str_timedelta (span_of ts l))\<rparr>],
                total_cycle_duration := total_cycle_duration s + span_of ts l\<rparr>
         else s)"

definition final_label :: "props list \<Rightarrow> nat \<Rightarrow> string option" where
  "final_label sm j =
     (if (Suc j < length sm \<and> boundary (map secs sm) (Suc j))
         \<or> (Suc j = length sm \<and> cycle_first (map secs sm) j < j)
      then Some (cycle_label (Suc (boundaries_upto (map secs sm) j)))
      else CycleCount (sm ! j))"

definition final_hours :: "props list \<Rightarrow> nat \<Rightarrow> string option" where
  "final_hours sm j =
     (case assigned_duration (map secs sm) j of
        None \<Rightarrow> CycleTotalHour (sm ! j)
      | Some d \<Rightarrow> Some (str_timedelta d))"

subsection \<open>Records without cycle keys\<close>

text \<open>
  Ignoring the labels and durations of a record is removing its two cycle keys; the
  records that \<^verbatim>\<open>process_folder\<close> builds have none.
\<close>

definition unlabel :: "props \<Rightarrow> props" where
  "unlabel r = r\<lparr>CycleCount := None, CycleTotalHour := None\<rparr>"

definition unlabelled :: "props \<Rightarrow> bool" where
  "unlabelled r = (CycleCount r = None \<and> CycleTotalHour r = None)"

subsection \<open>Rows of the written table\<close>

text \<open>The row \<open>i\<close> of a summary, or the row of six empty cells when the summary is shorter.\<close>

definition row_or_blank :: "cell list list \<Rightarrow> nat \<Rightarrow> cell list" where
  "row_or_blank summary i = (if i < length summary then summary ! i else replicate 6 (CStr []))"

subsection \<open>The numeral of a label\<close>

text \<open>
  The number that a string of decimal digits denotes. The label of line 57 and of line 75
  is the text \<^verbatim>\<open>CYCLE\<close>, a space and the decimal numeral of the counter.
\<close>

definition decimal_of :: "string \<Rightarrow> nat" where
  "decimal_of s = foldl (\<lambda>v c. 10 * v + digit_val c) 0 s"

section \<open>Scanning, described on the walk\<close>

text \<open>
  The pairs of a folder and an image path that the two loops of lines 21 to 25 go
  through, in their order: the images the script opens.
\<close>

definition opened :: "(string \<times> string list \<times> string list) list \<Rightarrow> (string \<times> string) list" where
  "opened w =
     concat (map (\<lambda>folder. map (Pair folder) (folder_images (images_of w) folder)) (folders_of w))"

text \<open>
  A read is well stamped unless it yields a non-empty DateTimeOriginal that does not
  split into exactly two fields: the one case in which the unpacking of line 36 raises.
\<close>

definition well_stamped :: "exif_read \<Rightarrow> bool" where
  "well_stamped x =
     (case x of
        Raises e \<Rightarrow> True
      | DateTimeOriginal None \<Rightarrow> True
      | DateTimeOriginal (Some date_taken) \<Rightarrow> date_taken = [] \<or> length (split date_taken) = 2)"

text \<open>The records and the outputs that one opened image contributes.\<close>

definition entry_of :: "(string \<Rightarrow> exif_read) \<Rightarrow> string \<Rightarrow> string \<times> string \<Rightarrow> props list" where
  "entry_of exif folder_type fp =
     (case exif (snd fp) of
        Raises e \<Rightarrow> []
      | DateTimeOriginal None \<Rightarrow> []
      | DateTimeOriginal (Some date_taken) \<Rightarrow>
          (if date_taken = [] then []
           else if length (split date_taken) = 2
           then [new_props (split date_taken ! 0) (split date_taken ! 1)
                   (basename (snd fp)) (basename (fst fp)) folder_type]
           else []))"

definition complaint_of :: "(string \<Rightarrow> exif_read) \<Rightarrow> string \<times> string \<Rightarrow> written list" where
  "complaint_of exif fp =
     (case exif (snd fp) of
        Raises e \<Rightarrow>
          [Printed (''Error processing image '' @ [CHR 0x27] @ snd fp @ [CHR 0x27] @ '': '' @ e),
           Traceback e]
      | DateTimeOriginal d \<Rightarrow> [])"

text \<open>
  The state of the scan once the images of the list \<open>pairs\<close> have been read, none of
  them raising on line 36.
\<close>

definition after_reading ::
  "(string \<Rightarrow> exif_read) \<Rightarrow> string \<Rightarrow> (string \<times> string) list \<Rightarrow> scan_state \<Rightarrow> scan_state" where
  "after_reading exif folder_type pairs st =
     st\<lparr>found := found st @ concat (map (entry_of exif folder_type) pairs),
        log := log st @ concat (map (complaint_of exif) pairs)\<rparr>"

text \<open>
  The names of a file system are not empty and hold no separator; a tree is valid when
  all its names are.
\<close>

definition valid_name :: "string \<Rightarrow> bool" where
  "valid_name n = (n \<noteq> [] \<and> sep \<notin> set n)"

fun valid_tree :: "dir \<Rightarrow> bool" where
  "valid_tree (Dir subs fs) =
     (list_all valid_name fs \<and> list_all (\<lambda>p. valid_name (fst p) \<and> valid_tree (snd p)) subs)"

section \<open>Example inputs\<close>

text \<open>Four records with the times 09:00:00, 09:00:30, 09:05:00 and 09:05:20.\<close>

definition scenario_records :: "props list" where
  "scenario_records =
     [new_props ''2024:05:01'' ''09:00:00'' ''a.jpg'' ''P1'' ''VISUAL'',
      new_props ''2024:05:01'' ''09:00:30'' ''b.jpg'' ''P1'' ''VISUAL'',
      new_props ''2024:05:01'' ''09:05:00'' ''c.jpg'' ''P2'' ''VISUAL'',
      new_props ''2024:05:01'' ''09:05:20'' ''d.jpg'' ''P2'' ''VISUAL'']"

text \<open>The variables after the loop on these records, and after the closing step.\<close>

definition scenario_walked :: walk_state where
  "scenario_walked =
     \<lparr>metadata =
        [new_props ''2024:05:01'' ''09:00:00'' ''a.jpg'' ''P1'' ''VISUAL'',
         (new_props ''2024:05:01'' ''09:00:30'' ''b.jpg'' ''P1'' ''VISUAL'')
           \<lparr>CycleCount := Some ''CYCLE 1'', CycleTotalHour := Some ''0:00:30''\<rparr>,
         new_props ''2024:05:01'' ''09:05:00'' ''c.jpg'' ''P2'' ''VISUAL'',
         new_props ''2024:05:01'' ''09:05:20'' ''d.jpg'' ''P2'' ''VISUAL''],
      cycle_count = 2, cycle_start_time = Some 32700, total_cycle_duration = 30\<rparr>"

definition scenario_result :: walk_state where
  "scenario_result =
     \<lparr>metadata =
        [new_props ''2024:05:01'' ''09:00:00'' ''a.jpg'' ''P1'' ''VISUAL'',
         (new_props ''2024:05:01'' ''09:00:30'' ''b.jpg'' ''P1'' ''VISUAL'')
           \<lparr>CycleCount := Some ''CYCLE 1'', CycleTotalHour := Some ''0:00:30''\<rparr>,
         new_props ''2024:05:01'' ''09:05:00'' ''c.jpg'' ''P2'' ''VISUAL'',
         (new_props ''2024:05:01'' ''09:05:20'' ''d.jpg'' ''P2'' ''VISUAL'')
           \<lparr>CycleCount := Some ''CYCLE 2'', CycleTotalHour := Some ''0:00:20''\<rparr>],
      cycle_count = 2, cycle_start_time = Some 32700, total_cycle_duration = 50\<rparr>"

text \<open>A category with one record.\<close>

definition single_record :: "props list" where
  "single_record = [new_props ''2024:05:01'' ''09:00:00'' ''a.jpg'' ''P1'' ''VISUAL'']"

text \<open>
  A root folder with one image of its own and one subfolder with two images and a text
  file; a camera that stamps date and time.
\<close>

definition example_tree :: dir where
  "example_tree = Dir [(''P1'', Dir [] [''a.jpg'', ''b.JPG'', ''notes.txt''])] [''top.jpg'']"

definition exif_stamped :: "string \<Rightarrow> exif_read" where
  "exif_stamped image_path = DateTimeOriginal (Some ''2024:05:01 09:00:00'')"

text \<open>
  A subfolder with three images: the first cannot be opened, the second carries a
  DateTimeOriginal with a date and no time, the third carries a date and a time.
\<close>

definition mixed_tree :: dir where
  "mixed_tree = Dir [(''P1'', Dir [] [''a.jpg'', ''b.jpg'', ''c.jpg''])] []"

definition exif_mixed :: "string \<Rightarrow> exif_read" where
  "exif_mixed image_path =
     (if image_path = ''/data/P1/a.jpg'' then Raises ''cannot identify image file''
      else if image_path = ''/data/P1/b.jpg'' then DateTimeOriginal (Some ''2024:05:01'')
      else DateTimeOriginal (Some ''2024:05:01 09:00:00''))"

section \<open>Properties\<close>

subsection \<open>Evaluation\<close>

lemmas eval_defs = segment_def sort_metadata_def parses_def secs_def strptime_def is_digit_def
  digit_val_def walk_step_def time_at_def close_last_def init_state_def cycle_label_def
  str_timedelta_def pad2_def str_nat.simps digit_char_def new_props_def upt_rec Let_def

lemma walk_scenario:
  "walk [1..<length scenario_records] (init_state scenario_records) = Inr scenario_walked"
  by (simp add: scenario_records_def scenario_walked_def eval_defs)

lemma segment_scenario: "segment scenario_records = Inr scenario_result"
  by (simp add: scenario_records_def scenario_result_def eval_defs)

lemma scenario_parses: "list_all parses scenario_records"
  by (simp add: scenario_records_def parses_def strptime_def is_digit_def digit_val_def
      new_props_def)

lemma scenario_unlabelled: "list_all unlabelled scenario_records"
  by (simp add: scenario_records_def unlabelled_def new_props_def)

subsection \<open>The state of the walk after each pair\<close>

lemma strptime_parses: "parses r \<Longrightarrow> strptime (TimeTaken r) = Inr (secs r)"
  by (auto simp: parses_def secs_def split: sum.splits)

lemma secs_annot [simp]: "secs (annot sm k j) = secs (sm ! j)"
  by (simp add: annot_def secs_def)

lemma parses_annot [simp]: "parses (annot sm k j) = parses (sm ! j)"
  by (simp add: annot_def parses_def)

lemma TimeTaken_annot [simp]: "TimeTaken (annot sm k j) = TimeTaken (sm ! j)"
  by (simp add: annot_def)

lemma time_at_state_after:
  "list_all parses sm \<Longrightarrow> i < length sm \<Longrightarrow>
   time_at (metadata (state_after sm k)) i = Inr (secs (sm ! i))"
  by (simp add: time_at_def state_after_def strptime_parses list_all_length)

lemma time_at_label:
  "i < length md \<Longrightarrow> time_at (md[i := (md ! i)\<lparr>CycleCount := c\<rparr>]) i = time_at md i"
  by (simp add: time_at_def)

lemma walk_append:
  "walk (xs @ ys) s = (case walk xs s of Inl e \<Rightarrow> Inl e | Inr s' \<Rightarrow> walk ys s')"
  by (induction xs arbitrary: s) (auto split: sum.splits)

lemma annot_0: "map (annot sm 0) [0..<length sm] = sm"
  by (rule nth_equalityI) (simp_all add: annot_def)

lemma state_after_0: "state_after sm 0 = init_state sm"
  by (simp add: state_after_def init_state_def annot_0 boundaries_upto_def marker_after_def
      total_upto_def)

lemma boundaries_upto_Suc:
  "boundaries_upto ts (Suc k) = (if boundary ts (Suc k) then Suc (boundaries_upto ts k) else boundaries_upto ts k)"
  by (simp add: boundaries_upto_def)

lemma cycle_first_le: "cycle_first ts j \<le> j"
  by (induction j) auto

lemma annot_update_boundary:
  assumes "Suc k < length sm" "boundary (map secs sm) (Suc k)"
  shows "(map (annot sm k) [0..<length sm])[k := annot sm (Suc k) k] = map (annot sm (Suc k)) [0..<length sm]"
  using assms by (auto simp: annot_def intro!: nth_equalityI simp: nth_list_update)

lemma annot_no_boundary:
  assumes "\<not> boundary (map secs sm) (Suc k)"
  shows "map (annot sm (Suc k)) [0..<length sm] = map (annot sm k) [0..<length sm]"
  using assms by (auto simp: annot_def less_Suc_eq)

lemma walk_step_state_after:
  assumes "list_all parses sm" "Suc k < length sm"
  shows "walk_step (Suc k) (state_after sm k) = Inr (state_after sm (Suc k))"
proof -
  have ti: "time_at (metadata (state_after sm k)) (Suc k) = Inr (secs (sm ! Suc k))"
    using assms by (simp add: time_at_state_after)
  have tp: "time_at (metadata (state_after sm k)) k = Inr (secs (sm ! k))"
    using assms by (simp add: time_at_state_after)
  have g: "int (secs (sm ! Suc k)) - int (secs (sm ! k)) = gap (map secs sm) (Suc k)"
    using assms by (simp add: gap_def)
  show ?thesis
  proof (cases "boundary (map secs sm) (Suc k)")
    case True
    then have ge: "60 \<le> int (secs (sm ! Suc k)) - int (secs (sm ! k))"
      by (simp add: g boundary_def)
    have k: "k < length sm" using assms by simp
    have nth_k: "map (annot sm k) [0..<length sm] ! k = sm ! k"
      using k by (simp add: annot_def)
    show ?thesis
    proof (cases "cycle_first (map secs sm) k < k")
      case False
      then have a: "annot sm (Suc k) k = (sm ! k)\<lparr>CycleCount := Some (cycle_label (Suc (boundaries_upto (map secs sm) k)))\<rparr>"
        using True by (simp add: annot_def)
      have tot: "total_upto (map secs sm) (Suc k) = total_upto (map secs sm) k"
        using False by (simp add: total_upto_def)
      have mk: "marker_after (map secs sm) (Suc k) = None"
        using True by (simp add: marker_after_def)
      show ?thesis
        using False True ge k
        apply (simp add: walk_step_def ti tp Let_def)
        apply (simp add: state_after_def marker_after_def nth_k boundaries_upto_Suc
            annot_update_boundary [OF assms(2) True, unfolded a] tot [unfolded total_upto_def] total_upto_def)
        done
    next
      case lt: True
      then have a: "annot sm (Suc k) k = (sm ! k)\<lparr>CycleCount := Some (cycle_label (Suc (boundaries_upto (map secs sm) k))),
          CycleTotalHour := Some (str_timedelta (span_of (map secs sm) k))\<rparr>"
        using True by (simp add: annot_def)
      have sp: "int (secs (sm ! k)) - int (secs (sm ! cycle_first (map secs sm) k)) = span_of (map secs sm) k"
        using k lt by (simp add: span_of_def)
      have tot: "total_upto (map secs sm) (Suc k) = total_upto (map secs sm) k + span_of (map secs sm) k"
        using lt True by (simp add: total_upto_def)
      have upd: "(map (annot sm k) [0..<length sm])[k := (sm ! k)\<lparr>CycleCount := Some (cycle_label (Suc (boundaries_upto (map secs sm) k))),
          CycleTotalHour := Some (str_timedelta (span_of (map secs sm) k))\<rparr>] = map (annot sm (Suc k)) [0..<length sm]"
        using annot_update_boundary [OF assms(2) True] by (simp add: a)
      have cs: "cycle_start_time (state_after sm k) = Some (secs (sm ! cycle_first (map secs sm) k))"
        using lt k by (simp add: state_after_def marker_after_def)
      have len: "k < length (metadata (state_after sm k))"
        using k by (simp add: state_after_def)
      show ?thesis
        using lt True ge k
        apply (simp add: walk_step_def ti tp Let_def cs time_at_label [OF len] sp)
        apply (simp add: state_after_def nth_k boundaries_upto_Suc marker_after_def upd tot)
        done
    qed
  next
    case False
    then have lt: "\<not> 60 \<le> int (secs (sm ! Suc k)) - int (secs (sm ! k))"
      by (simp add: g boundary_def)
    have tot: "total_upto (map secs sm) (Suc k) = total_upto (map secs sm) k"
      using False by (simp add: total_upto_def)
    have k: "k < length sm" using assms by simp
    show ?thesis
      using lt False k
      apply (simp add: walk_step_def ti tp Let_def)
      apply (auto simp: state_after_def marker_after_def boundaries_upto_Suc annot_no_boundary tot
          split: option.splits if_splits)
      using cycle_first_le [of "map secs sm" k] apply auto
      done
  qed
qed

lemma walk_prefix:
  assumes "list_all parses sm" "k < length sm"
  shows "walk [1..<Suc k] (init_state sm) = Inr (state_after sm k)"
  using assms(2)
proof (induction k)
  case 0
  then show ?case by (simp add: state_after_0)
next
  case (Suc k)
  then have "walk [1..<Suc k] (init_state sm) = Inr (state_after sm k)" by simp
  moreover have "[1..<Suc (Suc k)] = [1..<Suc k] @ [Suc k]" by simp
  ultimately show ?case
    using walk_step_state_after [OF assms(1) Suc.prems]
    by (simp only: walk_append) simp
qed

lemma walk_full:
  assumes "list_all parses sm"
  shows "walk [1..<length sm] (init_state sm) = Inr (state_after sm (length sm - 1))"
proof (cases sm)
  case Nil
  then show ?thesis by (simp add: state_after_0)
next
  case (Cons r rest)
  then have "length sm - 1 < length sm" "length sm = Suc (length sm - 1)" by simp_all
  then show ?thesis using walk_prefix [OF assms, of "length sm - 1"] by simp
qed

lemma close_last_state_after:
  assumes "list_all parses sm"
  shows "close_last (state_after sm (length sm - 1)) = Inr (final_state sm)"
proof -
  define l where "l = length sm - 1"
  have l_eq: "length sm - Suc 0 = l" by (simp add: l_def)
  show ?thesis
  proof (cases "cycle_first (map secs sm) l < l")
    case False
    then show ?thesis
      by (simp add: close_last_def final_state_def l_eq state_after_def marker_after_def Let_def)
  next
    case True
    then have ne: "sm \<noteq> []" by (auto simp: l_def)
    then have l: "l < length sm" by (cases sm) (simp_all add: l_def)
    have cs: "cycle_start_time (state_after sm l) = Some (secs (sm ! cycle_first (map secs sm) l))"
      using True l by (simp add: state_after_def marker_after_def)
    have md: "metadata (state_after sm l) \<noteq> []" "length (metadata (state_after sm l)) = length sm"
      using ne by (simp_all add: state_after_def)
    have nth: "metadata (state_after sm l) ! l = sm ! l"
      using l by (simp add: state_after_def annot_def)
    have sp: "int (secs (sm ! l)) - int (secs (sm ! cycle_first (map secs sm) l))
        = span_of (map secs sm) l"
      using True l by (simp add: span_of_def)
    show ?thesis
      using True l
      by (simp add: close_last_def l_eq cs md time_at_state_after [OF assms l] Let_def nth sp
          final_state_def)
  qed
qed

lemma parses_sort_key: "list_all parses md \<Longrightarrow> list_all parses (sort_key secs md)"
  by (simp add: list_all_iff)

lemma segment_final:
  assumes "list_all parses md"
  shows "segment md = Inr (final_state (sort_key secs md))"
  using assms walk_full [OF parses_sort_key [OF assms]]
    close_last_state_after [OF parses_sort_key [OF assms]]
  by (simp add: segment_def sort_metadata_def)

lemma segment_Inr_parses: "segment md = Inr s \<Longrightarrow> list_all parses md"
  by (simp add: segment_def sort_metadata_def split: if_splits)

lemma map_insort_key: "map f (insort_key f x xs) = insort (f x) (map f xs)"
  by (induction xs) simp_all

lemma map_sort_key: "map f (sort_key f xs) = sort (map f xs)"
  by (induction xs) (simp_all add: map_insort_key)

lemma length_final [simp]: "length (metadata (final_state sm)) = length sm"
  by (simp add: final_state_def state_after_def Let_def)

lemma final_nth:
  assumes "j < length sm"
  shows "metadata (final_state sm) ! j
         = (sm ! j)\<lparr>CycleCount := final_label sm j, CycleTotalHour := final_hours sm j\<rparr>"
proof -
  define l where "l = length sm - 1"
  have l_eq: "length sm - Suc 0 = l" by (simp add: l_def)
  have l: "Suc l = length sm" using assms by (simp add: l_def)
  show ?thesis
  proof (cases "Suc j = length sm")
    case True
    then have jl: "j = l" using l by simp
    show ?thesis using assms l
      by (auto simp: final_state_def l_eq Let_def state_after_def jl annot_def final_label_def
          final_hours_def assigned_duration_def closes_def)
  next
    case False
    then have jl: "j < l" "j \<noteq> l" using l assms by simp_all
    show ?thesis using assms l jl False
      by (auto simp: final_state_def l_eq Let_def state_after_def annot_def final_label_def
          final_hours_def assigned_duration_def closes_def)
  qed
qed

lemma final_metadata:
  "metadata (final_state sm)
   = map (\<lambda>j. (sm ! j)\<lparr>CycleCount := final_label sm j, CycleTotalHour := final_hours sm j\<rparr>)
       [0..<length sm]"
  by (rule nth_equalityI) (simp_all add: final_nth)

lemma final_total:
  "total_cycle_duration (final_state sm)
   = (\<Sum>j<length sm. case assigned_duration (map secs sm) j of None \<Rightarrow> 0 | Some d \<Rightarrow> d)"
proof (cases sm)
  case Nil
  then show ?thesis
    by (simp add: final_state_def state_after_def total_upto_def)
next
  case (Cons r rest)
  define l where "l = length sm - 1"
  have l_eq: "length sm - Suc 0 = l" by (simp add: l_def)
  have l: "length sm = Suc l" using Cons by (simp add: l_def)
  have pre: "(\<Sum>j<l. case assigned_duration (map secs sm) j of None \<Rightarrow> 0 | Some d \<Rightarrow> d)
      = total_upto (map secs sm) l"
    unfolding total_upto_def
    by (rule sum.cong) (auto simp: assigned_duration_def closes_def l)
  have lhs: "total_cycle_duration (final_state sm)
      = total_upto (map secs sm) l
        + (if cycle_first (map secs sm) l < l then span_of (map secs sm) l else 0)"
    by (simp add: final_state_def l_eq Let_def state_after_def)
  have end_term: "(case assigned_duration (map secs sm) l of None \<Rightarrow> 0 | Some d \<Rightarrow> d)
      = (if cycle_first (map secs sm) l < l then span_of (map secs sm) l else 0)"
    by (simp add: assigned_duration_def closes_def l)
  have "(\<Sum>j<length sm. case assigned_duration (map secs sm) j of None \<Rightarrow> 0 | Some d \<Rightarrow> d)
      = (\<Sum>j<Suc l. case assigned_duration (map secs sm) j of None \<Rightarrow> 0 | Some d \<Rightarrow> d)"
    by (simp only: l)
  also have "\<dots> = total_upto (map secs sm) l
        + (if cycle_first (map secs sm) l < l then span_of (map secs sm) l else 0)"
    by (simp only: sum.lessThan_Suc pre end_term)
  finally show ?thesis by (simp only: lhs)
qed

lemma final_count:
  "cycle_count (final_state sm) = Suc (boundaries_upto (map secs sm) (length sm - 1))"
  by (simp add: final_state_def Let_def state_after_def)

lemma final_marker:
  "cycle_start_time (final_state sm) = marker_after (map secs sm) (length sm - 1)"
  by (simp add: final_state_def Let_def state_after_def)

text \<open>
  The first record of a cycle, as a maximal run: no boundary lies between it and the
  record, and it is the record 0 or the second record of a boundary.
\<close>

lemma cycle_first_run:
  "cycle_first ts j \<le> j \<and>
   (\<forall>i. cycle_first ts j < i \<and> i \<le> j \<longrightarrow> \<not> boundary ts i) \<and>
   (cycle_first ts j = 0 \<or> boundary ts (cycle_first ts j))"
  by (induction j) (auto simp: le_Suc_eq)

subsection \<open>Steps of the loop on the labels\<close>

lemma label_step:
  assumes "Suc k < length sm"
  shows "map CycleCount (metadata (state_after sm (Suc k)))
         = (if boundary (map secs sm) (Suc k)
            then (map CycleCount (metadata (state_after sm k)))
                   [k := Some (cycle_label (cycle_count (state_after sm k)))]
            else map CycleCount (metadata (state_after sm k)))"
  using assms
  by (auto simp: state_after_def annot_def nth_list_update less_Suc_eq intro!: nth_equalityI)

lemma digit_of_char: "d < 10 \<Longrightarrow> is_digit (digit_char d) \<and> digit_val (digit_char d) = d"
proof -
  assume "d < 10"
  then have "d \<in> {0, 1, 2, 3, 4, 5, 6, 7, 8, 9}" by auto
  then show ?thesis
    by (auto simp: digit_char_def is_digit_def digit_val_def)
qed

lemma decimal_of_snoc: "decimal_of (s @ [c]) = 10 * decimal_of s + digit_val c"
  by (simp add: decimal_of_def)

lemma str_nat_decimal: "list_all is_digit (str_nat n) \<and> decimal_of (str_nat n) = n"
proof (induction n rule: str_nat.induct)
  case (1 n)
  show ?case
  proof (cases "n < 10")
    case True
    then show ?thesis
      using digit_of_char [OF True]
      by (subst (1 2) str_nat.simps) (simp add: decimal_of_def)
  next
    case False
    have m: "n mod 10 < 10" by simp
    from False 1 have ih: "list_all is_digit (str_nat (n div 10))"
      "decimal_of (str_nat (n div 10)) = n div 10" by simp_all
    show ?thesis
      using False ih digit_of_char [OF m]
      by (subst (1 2) str_nat.simps) (simp add: decimal_of_snoc)
  qed
qed

lemma label_step_text:
  assumes "Suc k < length sm"
  shows "map CycleCount (metadata (state_after sm (Suc k)))
         = (if boundary (map secs sm) (Suc k)
            then (map CycleCount (metadata (state_after sm k)))
                   [k := Some (''CYCLE '' @ str_nat (cycle_count (state_after sm k)))]
            else map CycleCount (metadata (state_after sm k)))"
  using label_step [OF assms] by (simp add: cycle_label_def)

subsection \<open>Labels at the boundaries\<close>

text \<open>
  C1. On every list \<open>sm\<close> of records whose times parse (sorted or not; the script runs the
  loop on the sorted list), the loop reaches the pair \<open>i\<close> without raising, and its step
  there does exactly this: when the gap of the pair is at least 60 seconds, the record
  \<open>i - 1\<close> receives the label made of the text \<^verbatim>\<open>CYCLE\<close>, one space and the decimal
  numeral of the current value \<open>n\<close> of the counter, which is one more than the number of
  boundaries before the pair, and the counter becomes \<open>n + 1\<close>; when the gap is below 60
  seconds no label is assigned and the counter stays. The label of the record \<open>i - 1\<close>
  at the end of the loop is the one of that step.
\<close>

theorem walk_labels_at_boundaries:
  assumes "list_all parses sm" and "0 < i" and "i < length sm"
  shows "\<exists>s s' s_end.
           walk [1..<i] (init_state sm) = Inr s \<and>
           walk_step i s = Inr s' \<and>
           walk [1..<Suc i] (init_state sm) = Inr s' \<and>
           walk [1..<length sm] (init_state sm) = Inr s_end \<and>
           cycle_count s = Suc (boundaries_upto (map secs sm) (i - 1)) \<and>
           list_all is_digit (str_nat (cycle_count s)) \<and>
           decimal_of (str_nat (cycle_count s)) = cycle_count s \<and>
           (if 60 \<le> gap (map secs sm) i
            then map CycleCount (metadata s')
                   = (map CycleCount (metadata s))
                       [i - 1 := Some (''CYCLE '' @ str_nat (cycle_count s))]
                 \<and> cycle_count s' = cycle_count s + 1
                 \<and> CycleCount (metadata s_end ! (i - 1))
                     = Some (''CYCLE '' @ str_nat (cycle_count s))
            else map CycleCount (metadata s') = map CycleCount (metadata s)
                 \<and> cycle_count s' = cycle_count s
                 \<and> CycleCount (metadata s_end ! (i - 1)) = CycleCount (sm ! (i - 1)))"
proof -
  obtain k where i: "i = Suc k" using assms(2) by (cases i) auto
  have k: "k < length sm" "Suc k < length sm" using assms(3) i by simp_all
  define l where "l = length sm - 1"
  have kl: "k < l" using k by (simp add: l_def)
  have w1: "walk [1..<i] (init_state sm) = Inr (state_after sm k)"
    using walk_prefix [OF assms(1) k(1)] by (simp add: i)
  have w2: "walk_step i (state_after sm k) = Inr (state_after sm (Suc k))"
    using walk_step_state_after [OF assms(1) k(2)] by (simp add: i)
  have w3: "walk [1..<Suc i] (init_state sm) = Inr (state_after sm (Suc k))"
    using walk_prefix [OF assms(1) k(2)] by (simp add: i)
  have w4: "walk [1..<length sm] (init_state sm) = Inr (state_after sm l)"
    using walk_full [OF assms(1)] by (simp add: l_def)
  have c: "cycle_count (state_after sm k) = Suc (boundaries_upto (map secs sm) (i - 1))"
    by (simp add: state_after_def i)
  have c': "cycle_count (state_after sm (Suc k))
      = (if boundary (map secs sm) (Suc k) then cycle_count (state_after sm k) + 1
         else cycle_count (state_after sm k))"
    by (simp add: state_after_def boundaries_upto_Suc)
  have e: "CycleCount (metadata (state_after sm l) ! k)
      = (if boundary (map secs sm) (Suc k)
         then Some (''CYCLE '' @ str_nat (cycle_count (state_after sm k)))
         else CycleCount (sm ! k))"
    using k kl by (simp add: state_after_def annot_def cycle_label_def)
  note d = str_nat_decimal [of "cycle_count (state_after sm k)"]
  have "walk [1..<i] (init_state sm) = Inr (state_after sm k) \<and>
           walk_step i (state_after sm k) = Inr (state_after sm (Suc k)) \<and>
           walk [1..<Suc i] (init_state sm) = Inr (state_after sm (Suc k)) \<and>
           walk [1..<length sm] (init_state sm) = Inr (state_after sm l) \<and>
           cycle_count (state_after sm k) = Suc (boundaries_upto (map secs sm) (i - 1)) \<and>
           list_all is_digit (str_nat (cycle_count (state_after sm k))) \<and>
           decimal_of (str_nat (cycle_count (state_after sm k))) = cycle_count (state_after sm k) \<and>
           (if 60 \<le> gap (map secs sm) i
            then map CycleCount (metadata (state_after sm (Suc k)))
                   = (map CycleCount (metadata (state_after sm k)))
                       [i - 1 := Some (''CYCLE '' @ str_nat (cycle_count (state_after sm k)))]
                 \<and> cycle_count (state_after sm (Suc k)) = cycle_count (state_after sm k) + 1
                 \<and> CycleCount (metadata (state_after sm l) ! (i - 1))
                     = Some (''CYCLE '' @ str_nat (cycle_count (state_after sm k)))
            else map CycleCount (metadata (state_after sm (Suc k))) = map CycleCount (metadata (state_after sm k))
                 \<and> cycle_count (state_after sm (Suc k)) = cycle_count (state_after sm k)
                 \<and> CycleCount (metadata (state_after sm l) ! (i - 1)) = CycleCount (sm ! (i - 1)))"
    using w1 w2 w3 w4 c c' e d label_step_text [OF k(2)]
    by (simp add: i boundary_def)
  then show ?thesis by blast
qed

theorem walk_labels_witness:
  "list_all parses scenario_records \<and> (0::nat) < 2 \<and> 2 < length scenario_records \<and>
   (\<exists>s s' s_end.
           walk [1..<2] (init_state scenario_records) = Inr s \<and>
           walk_step 2 s = Inr s' \<and>
           walk [1..<Suc 2] (init_state scenario_records) = Inr s' \<and>
           walk [1..<length scenario_records] (init_state scenario_records) = Inr s_end \<and>
           cycle_count s = Suc (boundaries_upto (map secs scenario_records) (2 - 1)) \<and>
           list_all is_digit (str_nat (cycle_count s)) \<and>
           decimal_of (str_nat (cycle_count s)) = cycle_count s \<and>
           (if 60 \<le> gap (map secs scenario_records) 2
            then map CycleCount (metadata s')
                   = (map CycleCount (metadata s))
                       [2 - 1 := Some (''CYCLE '' @ str_nat (cycle_count s))]
                 \<and> cycle_count s' = cycle_count s + 1
                 \<and> CycleCount (metadata s_end ! (2 - 1))
                     = Some (''CYCLE '' @ str_nat (cycle_count s))
            else map CycleCount (metadata s') = map CycleCount (metadata s)
                 \<and> cycle_count s' = cycle_count s
                 \<and> CycleCount (metadata s_end ! (2 - 1)) = CycleCount (scenario_records ! (2 - 1)))) \<and>
   walk [1..<length scenario_records] (init_state scenario_records) = Inr scenario_walked \<and>
   map CycleCount (metadata scenario_walked) = [None, Some ''CYCLE 1'', None, None]"
proof -
  have h2: "(0::nat) < 2" by simp
  have h3: "2 < length scenario_records" by (simp add: scenario_records_def)
  have lab: "map CycleCount (metadata scenario_walked) = [None, Some ''CYCLE 1'', None, None]"
    by (simp add: scenario_walked_def new_props_def)
  show ?thesis
    by (rule conjI [OF scenario_parses conjI [OF h2 conjI [OF h3
          conjI [OF walk_labels_at_boundaries [OF scenario_parses h2 h3] conjI [OF walk_scenario lab]]]]])
qed

subsection \<open>The scenario of four times\<close>

text \<open>
  C2, as the code computes it. On the times 09:00:00, 09:00:30, 09:05:00, 09:05:20 the
  record of 09:00:30 closes \<open>CYCLE 1\<close> with a duration of 30 seconds (the text
  \<open>0:00:30\<close>), the gap of 270 seconds before 09:05:00 is the only boundary, the last
  record closes \<open>CYCLE 2\<close> with a duration of 20 seconds, the total cycle duration is 50
  seconds (reported as \<open>0:00:50\<close>), and the reported number of battery cycles is 2: the
  counter starts at 1 and is incremented once, at the only boundary.
\<close>

theorem scenario_four_times:
  "segment scenario_records =
     Inr \<lparr>metadata =
            [new_props ''2024:05:01'' ''09:00:00'' ''a.jpg'' ''P1'' ''VISUAL'',
             (new_props ''2024:05:01'' ''09:00:30'' ''b.jpg'' ''P1'' ''VISUAL'')
               \<lparr>CycleCount := Some ''CYCLE 1'', CycleTotalHour := Some ''0:00:30''\<rparr>,
             new_props ''2024:05:01'' ''09:05:00'' ''c.jpg'' ''P2'' ''VISUAL'',
             (new_props ''2024:05:01'' ''09:05:20'' ''d.jpg'' ''P2'' ''VISUAL'')
               \<lparr>CycleCount := Some ''CYCLE 2'', CycleTotalHour := Some ''0:00:20''\<rparr>],
          cycle_count = 2, cycle_start_time = Some 32700, total_cycle_duration = 50\<rparr>
   \<and> report ''VISUAL'' 2 scenario_records =
     Inr [[CStr ''VISUAL Data Capture (Pole)'', CInt 2],
          [CStr ''VISUAL Start Time'', CStr ''09:00:00''],
          [CStr ''VISUAL End Time'', CStr ''09:05:20''],
          [CStr ''VISUAL Hours Data Capture (By Battery Cycle)'', CStr ''0:00:50''],
          [CStr ''VISUAL Battery Cycles'', CInt 2],
          [],
          [CStr ''DateTaken'', CStr ''TimeTaken'', CStr ''Image'', CStr ''Pole'',
           CStr ''CycleCount'', CStr ''CycleTotalHour''],
          [CStr ''2024:05:01'', CStr ''09:00:00'', CStr ''a.jpg'', CStr ''P1'', CStr [], CStr []],
          [CStr ''2024:05:01'', CStr ''09:00:30'', CStr ''b.jpg'', CStr ''P1'',
           CStr ''CYCLE 1'', CStr ''0:00:30''],
          [CStr ''2024:05:01'', CStr ''09:05:00'', CStr ''c.jpg'', CStr ''P2'', CStr [], CStr []],
          [CStr ''2024:05:01'', CStr ''09:05:20'', CStr ''d.jpg'', CStr ''P2'',
           CStr ''CYCLE 2'', CStr ''0:00:20'']]"
  by (simp add: report_def analyse_def segment_scenario scenario_result_def time_span_def
      build_summary_def data_row_def time_at_def strptime_def is_digit_def digit_val_def
      new_props_def str_timedelta_def pad2_def str_nat.simps digit_char_def)

text \<open>The counter of the scenario is not 3.\<close>

theorem scenario_cycle_count_counterexample:
  "map_sum id cycle_count (segment scenario_records) \<noteq> Inr 3"
  by (simp add: segment_scenario scenario_result_def)

subsection \<open>Cycle durations and their total\<close>

text \<open>
  C3. For every list of records whose times parse, segmentation returns, and on the
  sorted list: the total cycle duration is the sum of the durations assigned to the
  records; a duration is assigned to the records that end a cycle (the record before a
  boundary, or the last record) and whose cycle holds an earlier record, and it is the
  time of that record minus the time of the first record of its cycle, stored as the
  text of that duration; every other record keeps the \<open>CycleTotalHour\<close> it had. That
  first record is where the loop sets its marker: after the pair \<open>k\<close> the marker is the
  time of the first record of the cycle of the record \<open>k\<close> when that is an earlier
  record, and unset otherwise (\<open>cycle_first_run\<close> says that this is the record \<open>i - 1\<close>
  of the first pair \<open>i\<close> after the last boundary).
\<close>

theorem cycle_durations_total:
  assumes "list_all parses md"
  shows "\<exists>s. segment md = Inr s \<and>
           total_cycle_duration s
             = (\<Sum>j<length md. case assigned_duration (sort (map secs md)) j of
                                  None \<Rightarrow> 0 | Some d \<Rightarrow> d) \<and>
           map CycleTotalHour (metadata s)
             = map (\<lambda>j. case assigned_duration (sort (map secs md)) j of
                           None \<Rightarrow> CycleTotalHour (sort_key secs md ! j)
                         | Some d \<Rightarrow> Some (str_timedelta d))
                 [0..<length md] \<and>
           map (\<lambda>k. map_sum id cycle_start_time
                        (walk [1..<Suc k] (init_state (sort_key secs md))))
               [0..<length md]
             = map (\<lambda>k. Inr (marker_after (sort (map secs md)) k)) [0..<length md]"
proof -
  have "total_cycle_duration (final_state (sort_key secs md))
      = (\<Sum>j<length md. case assigned_duration (sort (map secs md)) j of
                                  None \<Rightarrow> 0 | Some d \<Rightarrow> d)"
    by (simp add: final_total map_sort_key)
  moreover have "map CycleTotalHour (metadata (final_state (sort_key secs md)))
      = map (\<lambda>j. case assigned_duration (sort (map secs md)) j of
                           None \<Rightarrow> CycleTotalHour (sort_key secs md ! j)
                         | Some d \<Rightarrow> Some (str_timedelta d))
                 [0..<length md]"
    by (simp add: final_metadata final_hours_def map_sort_key)
  moreover have "map (\<lambda>k. map_sum id cycle_start_time
                        (walk [1..<Suc k] (init_state (sort_key secs md))))
               [0..<length md]
             = map (\<lambda>k. Inr (marker_after (sort (map secs md)) k)) [0..<length md]"
  proof (rule map_cong [OF refl])
    fix k assume "k \<in> set [0..<length md]"
    then have "k < length (sort_key secs md)" by simp
    from walk_prefix [OF parses_sort_key [OF assms] this]
    show "map_sum id cycle_start_time (walk [1..<Suc k] (init_state (sort_key secs md)))
        = Inr (marker_after (sort (map secs md)) k)"
      by (simp add: state_after_def map_sort_key)
  qed
  ultimately show ?thesis
    using segment_final [OF assms] by blast
qed

theorem cycle_durations_witness:
  "list_all parses scenario_records \<and>
   (\<exists>s. segment scenario_records = Inr s \<and>
           total_cycle_duration s
             = (\<Sum>j<length scenario_records.
                  case assigned_duration (sort (map secs scenario_records)) j of
                    None \<Rightarrow> 0 | Some d \<Rightarrow> d) \<and>
           map CycleTotalHour (metadata s)
             = map (\<lambda>j. case assigned_duration (sort (map secs scenario_records)) j of
                           None \<Rightarrow> CycleTotalHour (sort_key secs scenario_records ! j)
                         | Some d \<Rightarrow> Some (str_timedelta d))
                 [0..<length scenario_records] \<and>
           map (\<lambda>k. map_sum id cycle_start_time
                        (walk [1..<Suc k] (init_state (sort_key secs scenario_records))))
               [0..<length scenario_records]
             = map (\<lambda>k. Inr (marker_after (sort (map secs scenario_records)) k))
                 [0..<length scenario_records])"
  by (rule conjI [OF scenario_parses cycle_durations_total [OF scenario_parses]])

subsection \<open>The closing step\<close>



subsection \<open>The span of the day\<close>

lemma TimeTaken_final:
  "j < length sm \<Longrightarrow> TimeTaken (metadata (final_state sm) ! j) = TimeTaken (sm ! j)"
  by (simp add: final_nth)

lemma time_at_final:
  "list_all parses sm \<Longrightarrow> j < length sm \<Longrightarrow> time_at (metadata (final_state sm)) j = Inr (secs (sm ! j))"
  by (simp add: time_at_def TimeTaken_final strptime_parses list_all_length)

text \<open>
  C5. For every non-empty list of records whose times parse, the analysis returns and
  \<open>total_time_difference\<close> is the last of the sorted times minus the first: a function of
  these two times alone, whatever the cycles are.
\<close>

theorem total_time_difference_span:
  assumes "list_all parses md" and "md \<noteq> []"
  shows "\<exists>a. analyse md = Inr a \<and>
           total_time_difference a
             = int (last (sort (map secs md))) - int (hd (sort (map secs md)))"
proof -
  define sm where "sm = sort_key secs md"
  have p: "list_all parses sm" using assms(1) by (simp add: sm_def parses_sort_key)
  have ne: "sm \<noteq> []" using assms(2) by (auto simp: sm_def dest: arg_cong [where f = length])
  then have l: "length sm - 1 < length sm" "0 < length sm" by (cases sm; simp)+
  have ts: "sort (map secs md) = map secs sm" by (simp add: sm_def map_sort_key)
  have seg: "segment md = Inr (final_state sm)"
    using segment_final [OF assms(1)] by (simp add: sm_def)
  have ne': "metadata (final_state sm) \<noteq> []"
    using ne by (metis length_final length_0_conv)
  have "time_span (metadata (final_state sm))
      = Inr (int (secs (sm ! (length sm - 1))) - int (secs (sm ! 0)))"
    using ne' time_at_final [OF p l(1)] time_at_final [OF p l(2)]
    by (simp add: time_span_def)
  moreover have "last (map secs sm) = secs (sm ! (length sm - 1))" "hd (map secs sm) = secs (sm ! 0)"
    using ne by (simp_all add: last_conv_nth hd_conv_nth)
  ultimately show ?thesis
    by (simp add: analyse_def seg ts)
qed

theorem total_time_difference_witness:
  "list_all parses scenario_records \<and> scenario_records \<noteq> [] \<and>
   (\<exists>a. analyse scenario_records = Inr a \<and>
           total_time_difference a
             = int (last (sort (map secs scenario_records)))
               - int (hd (sort (map secs scenario_records))))"
proof -
  have ne: "scenario_records \<noteq> []" by (simp add: scenario_records_def)
  show ?thesis
    by (rule conjI [OF scenario_parses conjI [OF ne
          total_time_difference_span [OF scenario_parses ne]]])
qed

subsection \<open>Empty and one-element categories\<close>

text \<open>
  C6, as the code behaves. On the empty list the loop has no pair and line 79 raises
  \<^verbatim>\<open>IndexError\<close>. On a list of one record the loop has no pair either and leaves the
  variables as they were initialised; when the time of the record parses nothing raises
  and the summary is returned, with the time of the record as start and end, a total of
  \<open>0:00:00\<close>, 1 battery cycle and the one record without label or duration; when it
  does not parse, the sort raises \<^verbatim>\<open>ValueError\<close>.
\<close>

theorem empty_and_single_record:
  "report folder_type n_folders [] = Inl IndexError \<and>
   walk [1..<length [r]] (init_state [r]) = Inr (init_state [r]) \<and>
   report folder_type n_folders [r] =
     (if parses r
      then Inr [[CStr (folder_type @ '' Data Capture (Pole)''), CInt (int n_folders)],
                [CStr (folder_type @ '' Start Time''), CStr (TimeTaken r)],
                [CStr (folder_type @ '' End Time''), CStr (TimeTaken r)],
                [CStr (folder_type @ '' Hours Data Capture (By Battery Cycle)''), CStr ''0:00:00''],
                [CStr (folder_type @ '' Battery Cycles''), CInt 1],
                [],
                [CStr ''DateTaken'', CStr ''TimeTaken'', CStr ''Image'', CStr ''Pole'',
                 CStr ''CycleCount'', CStr ''CycleTotalHour''],
                data_row r]
      else Inl ValueError)"
proof -
  have e: "report folder_type n_folders [] = Inl IndexError"
    by (simp add: report_def analyse_def segment_def sort_metadata_def init_state_def
        close_last_def time_span_def)
  have w: "walk [1..<length [r]] (init_state [r]) = Inr (init_state [r])" by simp
  have z: "str_timedelta 0 = ''0:00:00''"
    by (simp add: str_timedelta_def pad2_def str_nat.simps digit_char_def)
  have one: "report folder_type n_folders [r] = (if parses r then
      Inr [[CStr (folder_type @ '' Data Capture (Pole)''), CInt (int n_folders)],
                [CStr (folder_type @ '' Start Time''), CStr (TimeTaken r)],
                [CStr (folder_type @ '' End Time''), CStr (TimeTaken r)],
                [CStr (folder_type @ '' Hours Data Capture (By Battery Cycle)''), CStr ''0:00:00''],
                [CStr (folder_type @ '' Battery Cycles''), CInt 1],
                [],
                [CStr ''DateTaken'', CStr ''TimeTaken'', CStr ''Image'', CStr ''Pole'',
                 CStr ''CycleCount'', CStr ''CycleTotalHour''],
                data_row r] else Inl ValueError)"
    by (simp add: report_def analyse_def segment_def sort_metadata_def init_state_def
        close_last_def time_span_def time_at_def strptime_parses build_summary_def z)
  show ?thesis using e w one by simp
qed

text \<open>A category of one record with a well-formed time is processed without a fault.\<close>

theorem single_record_counterexample:
  "\<not> isl (report ''VISUAL'' 1 single_record)"
  by (simp add: single_record_def report_def analyse_def segment_def sort_metadata_def init_state_def
        close_last_def time_span_def time_at_def build_summary_def parses_def strptime_def
        is_digit_def digit_val_def new_props_def)

subsection \<open>Running the segmentation again\<close>

lemma unlabel_id: "unlabelled r \<Longrightarrow> r\<lparr>CycleCount := None, CycleTotalHour := None\<rparr> = r"
  by (cases r) (simp add: unlabelled_def)

lemma final_state_eq:
  "final_state sm =
     \<lparr>metadata = map (\<lambda>j. (sm ! j)\<lparr>CycleCount := final_label sm j, CycleTotalHour := final_hours sm j\<rparr>)
                    [0..<length sm],
      cycle_count = Suc (boundaries_upto (map secs sm) (length sm - 1)),
      cycle_start_time = marker_after (map secs sm) (length sm - 1),
      total_cycle_duration =
        (\<Sum>j<length sm. case assigned_duration (map secs sm) j of None \<Rightarrow> 0 | Some d \<Rightarrow> d)\<rparr>"
  by (rule walk_state.equality)
     (simp_all add: final_metadata [symmetric] final_count final_marker final_total)

lemma secs_final:
  "j < length sm \<Longrightarrow> secs (metadata (final_state sm) ! j) = secs (sm ! j)"
  by (simp add: final_nth secs_def)

lemma map_secs_final: "map secs (metadata (final_state sm)) = map secs sm"
  by (rule nth_equalityI) (simp_all add: secs_final)

lemma parses_final:
  assumes "list_all parses sm"
  shows "list_all parses (metadata (final_state sm))"
  using assms by (simp add: list_all_length final_nth parses_def)

lemma final_state_again:
  "final_state (metadata (final_state sm)) = final_state sm"
proof -
  define R where "R = metadata (final_state sm)"
  have len: "length R = length sm" by (simp add: R_def)
  have ms: "map secs R = map secs sm" by (simp add: R_def map_secs_final)
  have nth: "\<And>j. j < length sm \<Longrightarrow>
      R ! j = (sm ! j)\<lparr>CycleCount := final_label sm j, CycleTotalHour := final_hours sm j\<rparr>"
    by (simp add: R_def final_nth)
  have lab: "\<And>j. j < length sm \<Longrightarrow> final_label R j = final_label sm j"
    by (simp add: final_label_def ms len nth)
  have hrs: "\<And>j. j < length sm \<Longrightarrow> final_hours R j = final_hours sm j"
    by (simp add: final_hours_def ms nth split: option.splits)
  have md: "map (\<lambda>j. (R ! j)\<lparr>CycleCount := final_label R j, CycleTotalHour := final_hours R j\<rparr>)
                    [0..<length sm]
      = map (\<lambda>j. (sm ! j)\<lparr>CycleCount := final_label sm j, CycleTotalHour := final_hours sm j\<rparr>)
                    [0..<length sm]"
    by (rule nth_equalityI) (simp_all add: lab hrs nth)
  have "final_state R = final_state sm"
    by (simp only: final_state_eq [of R] final_state_eq [of sm] md ms len)
  then show ?thesis by (simp add: R_def)
qed

text \<open>
  C7. When segmentation of a list of records without cycle keys returns a state, then
  segmenting the records of that state again, with their cycle keys removed, returns the
  same state: the same records with the same labels and durations, the same counter and
  the same total. It does so too when the keys are left in place.
\<close>

theorem segment_idempotent:
  assumes "segment md = Inr s" and "list_all unlabelled md"
  shows "segment (map unlabel (metadata s)) = Inr s \<and> segment (metadata s) = Inr s"
proof -
  define sm where "sm = sort_key secs md"
  have p: "list_all parses md" using assms(1) by (rule segment_Inr_parses)
  have psm: "list_all parses sm" using p by (simp add: sm_def parses_sort_key)
  have s: "s = final_state sm"
    using segment_final [OF p] assms(1) by (simp add: sm_def)
  have sorted_sm: "sort_key secs sm = sm"
    by (simp add: sm_def sort_key_id_if_sorted)
  have seg_sm: "segment sm = Inr s"
    using segment_final [OF psm] by (simp add: sorted_sm s)
  have u: "list_all unlabelled sm"
    using assms(2) by (simp add: sm_def list_all_iff)
  have "map unlabel (metadata s) = sm"
  proof (rule nth_equalityI)
    show "length (map unlabel (metadata s)) = length sm" by (simp add: s)
  next
    fix j assume "j < length (map unlabel (metadata s))"
    then have j: "j < length sm" by (simp add: s)
    then have "unlabelled (sm ! j)" using u by (simp add: list_all_length)
    then show "map unlabel (metadata s) ! j = sm ! j"
      using j by (simp add: s final_nth unlabel_def unlabel_id)
  qed
  then have first: "segment (map unlabel (metadata s)) = Inr s"
    using seg_sm by simp
  have pR: "list_all parses (metadata s)" using psm by (simp add: s parses_final)
  have "sorted (map secs (metadata s))"
    by (simp add: s map_secs_final sm_def)
  then have "sort_key secs (metadata s) = metadata s"
    by (rule sort_key_id_if_sorted)
  then have "segment (metadata s) = Inr (final_state (metadata s))"
    using segment_final [OF pR] by simp
  then have second: "segment (metadata s) = Inr s"
    by (simp add: s final_state_again)
  show ?thesis using first second by simp
qed

theorem segment_idempotent_witness:
  "segment scenario_records = Inr scenario_result \<and> list_all unlabelled scenario_records \<and>
   (segment (map unlabel (metadata scenario_result)) = Inr scenario_result \<and>
    segment (metadata scenario_result) = Inr scenario_result)"
  by (rule conjI [OF segment_scenario conjI [OF scenario_unlabelled
        segment_idempotent [OF segment_scenario scenario_unlabelled]]])

subsection \<open>The two reports side by side\<close>

lemma extend_summary_eq:
  "extend_summary n s = s @ replicate (n - length s) (replicate 6 (CStr []))"
proof (induction n s rule: extend_summary.induct)
  case (1 max_length summary)
  show ?case
  proof (cases "length summary < max_length")
    case True
    then have "max_length - length summary = Suc (max_length - Suc (length summary))" by simp
    then show ?thesis
      using 1 True by (subst extend_summary.simps) (simp add: replicate_app_Cons_same)
  next
    case False
    then show ?thesis by (subst extend_summary.simps) simp
  qed
qed

lemma extend_summary_nth:
  "i < max n (length s) \<Longrightarrow> extend_summary n s ! i = row_or_blank s i"
  by (simp add: extend_summary_eq row_or_blank_def nth_append)

lemma length_extend_summary: "length (extend_summary n s) = max n (length s)"
  by (simp add: extend_summary_eq)

text \<open>
  C9. The rows written are as many as the longer summary has; the row \<open>i\<close> is the row
  \<open>i\<close> of the VISUAL summary, two empty cells, and the row \<open>i\<close> of the THERMAL
  summary, where a summary that is too short stands with rows of six empty cells.
\<close>

theorem csv_rows_side_by_side:
  "csv_rows visual_summary thermal_summary =
     map (\<lambda>i. row_or_blank visual_summary i @ [CStr [], CStr []] @ row_or_blank thermal_summary i)
       [0..<max (length visual_summary) (length thermal_summary)]"
proof (rule nth_equalityI)
  show "length (csv_rows visual_summary thermal_summary) =
    length (map (\<lambda>i. row_or_blank visual_summary i @ [CStr [], CStr []] @ row_or_blank thermal_summary i)
       [0..<max (length visual_summary) (length thermal_summary)])"
    by (simp add: csv_rows_def Let_def length_extend_summary)
next
  fix i assume "i < length (csv_rows visual_summary thermal_summary)"
  then have i: "i < max (length visual_summary) (length thermal_summary)"
    by (simp add: csv_rows_def Let_def length_extend_summary)
  then have "i < max (max (length visual_summary) (length thermal_summary)) (length visual_summary)"
    "i < max (max (length visual_summary) (length thermal_summary)) (length thermal_summary)"
    by simp_all
  then show "csv_rows visual_summary thermal_summary ! i =
    map (\<lambda>i. row_or_blank visual_summary i @ [CStr [], CStr []] @ row_or_blank thermal_summary i)
       [0..<max (length visual_summary) (length thermal_summary)] ! i"
    using i
    by (simp add: csv_rows_def Let_def length_extend_summary extend_summary_nth numeral_2_eq_2
        del: max.absorb1 max.absorb2 max.absorb3 max.absorb4)
qed

subsection \<open>Reading the images\<close>

lemma after_reading_Nil [simp]: "after_reading exif folder_type [] st = st"
  by (simp add: after_reading_def)

lemma after_reading_append:
  "after_reading exif folder_type (xs @ ys) st
   = after_reading exif folder_type ys (after_reading exif folder_type xs st)"
  by (simp add: after_reading_def)

lemma list_two: "length xs = 2 \<longleftrightarrow> (\<exists>a b. xs = [a, b])"
  by (cases xs; simp; cases "tl xs"; auto simp: numeral_2_eq_2)

lemma read_image_eq:
  "read_image exif folder_type folder image_path st =
     (if well_stamped (exif image_path)
      then Inr (after_reading exif folder_type [(folder, image_path)] st)
      else Inl (ValueError, st))"
proof (cases "exif image_path")
  case (Raises e)
  then show ?thesis
    by (simp add: read_image_def well_stamped_def entry_of_def complaint_of_def after_reading_def)
next
  case (DateTimeOriginal d)
  show ?thesis
  proof (cases d)
    case None
    then show ?thesis using DateTimeOriginal
      by (simp add: read_image_def well_stamped_def entry_of_def complaint_of_def after_reading_def)
  next
    case (Some date_taken)
    show ?thesis
    proof (cases "length (split date_taken) = 2")
      case True
      then obtain a b where "split date_taken = [a, b]" by (auto simp: list_two)
      then show ?thesis using DateTimeOriginal Some
        by (simp add: read_image_def well_stamped_def entry_of_def complaint_of_def after_reading_def)
    next
      case False
      then have "\<And>a b. split date_taken \<noteq> [a, b]" by (auto simp: list_two)
      then show ?thesis using DateTimeOriginal Some False
        by (auto simp: read_image_def well_stamped_def entry_of_def complaint_of_def after_reading_def
            split: list.splits)
    qed
  qed
qed

lemma scan_images_eq:
  "scan_images exif folder_type folder ps st =
     (if list_all (\<lambda>p. well_stamped (exif p)) ps
      then Inr (after_reading exif folder_type (map (Pair folder) ps) st)
      else Inl (ValueError,
             after_reading exif folder_type
               (map (Pair folder) (takeWhile (\<lambda>p. well_stamped (exif p)) ps)) st))"
proof (induction ps arbitrary: st)
  case Nil
  then show ?case by simp
next
  case (Cons p ps)
  show ?case
    by (simp add: read_image_eq Cons.IH) (simp add: after_reading_def)
qed

lemma list_all_pairs:
  "list_all (\<lambda>fp. well_stamped (exif (snd fp))) (map (Pair a) ps)
   = list_all (\<lambda>p. well_stamped (exif p)) ps"
  by (induction ps) simp_all

lemma takeWhile_pairs:
  "takeWhile (\<lambda>fp. well_stamped (exif (snd fp))) (map (Pair a) ps)
   = map (Pair a) (takeWhile (\<lambda>p. well_stamped (exif p)) ps)"
  by (induction ps) simp_all

lemma takeWhile_append_all:
  "takeWhile P (xs @ ys) = (if list_all P xs then xs @ takeWhile P ys else takeWhile P xs)"
  by (induction xs) simp_all

lemma scan_folders_eq:
  "scan_folders exif folder_type images fs st =
     (if list_all (\<lambda>fp. well_stamped (exif (snd fp)))
           (concat (map (\<lambda>folder. map (Pair folder) (folder_images images folder)) fs))
      then Inr (after_reading exif folder_type
             (concat (map (\<lambda>folder. map (Pair folder) (folder_images images folder)) fs)) st)
      else Inl (ValueError,
             after_reading exif folder_type
               (takeWhile (\<lambda>fp. well_stamped (exif (snd fp)))
                 (concat (map (\<lambda>folder. map (Pair folder) (folder_images images folder)) fs)))
               st))"
  by (induction fs arbitrary: st)
     (simp_all add: scan_images_eq list_all_pairs takeWhile_pairs takeWhile_append_all
        after_reading_append)

lemma scan_eq:
  "scan tree exif parent_folder folder_type =
     (if list_all (\<lambda>fp. well_stamped (exif (snd fp))) (opened (os_walk parent_folder tree))
      then Inr (after_reading exif folder_type (opened (os_walk parent_folder tree))
                  \<lparr>found = [], log = []\<rparr>)
      else Inl (ValueError,
             after_reading exif folder_type
               (takeWhile (\<lambda>fp. well_stamped (exif (snd fp))) (opened (os_walk parent_folder tree)))
               \<lparr>found = [], log = []\<rparr>))"
  by (simp add: scan_def Let_def scan_folders_eq opened_def)


lemmas path_defs = path_join_def sep_def dirname_def basename_def head_len_def rstrip_sep_def
  folders_of_def images_of_def folder_images_def is_jpg_def endswith_def lower_def lower_char_def
  is_upper_def

lemma walk_mixed:
  "os_walk ''/data'' mixed_tree
   = [(''/data'', [''P1''], []), (''/data/P1'', [], [''a.jpg'', ''b.jpg'', ''c.jpg''])]"
  by (simp add: mixed_tree_def path_join_def sep_def)

lemma folders_mixed: "folders_of (os_walk ''/data'' mixed_tree) = [''/data/P1'']"
  by (simp add: walk_mixed folders_of_def path_join_def sep_def)

lemma images_mixed:
  "images_of (os_walk ''/data'' mixed_tree)
   = [''/data/P1/a.jpg'', ''/data/P1/b.jpg'', ''/data/P1/c.jpg'']"
  by (simp add: walk_mixed path_defs)

text \<open>
  C8. The script run on a folder of three images: \<^verbatim>\<open>a.jpg\<close> cannot be opened, \<^verbatim>\<open>b.jpg\<close>
  carries a DateTimeOriginal with a date and no time, \<^verbatim>\<open>c.jpg\<close> carries a date and a
  time. The failure of \<^verbatim>\<open>a.jpg\<close> is caught on line 33: its path and its cause are
  printed, no record is made, and the scan goes on. The unpacking of line 36 is outside
  the \<^verbatim>\<open>try\<close> block: on the stamp of \<^verbatim>\<open>b.jpg\<close> it raises \<^verbatim>\<open>ValueError\<close>, nothing
  is printed for that image, \<^verbatim>\<open>c.jpg\<close> is never read, and \<^verbatim>\<open>process_folder\<close> ends with
  the exception in place of a summary.
\<close>

theorem unparsed_stamp_aborts:
  "process_folder mixed_tree exif_mixed ''/data'' ''VISUAL''
   = ([Printed (''Error processing image '' @ [CHR 0x27] @ ''/data/P1/a.jpg'' @ [CHR 0x27]
                 @ '': cannot identify image file''),
       Traceback ''cannot identify image file''],
      Inl ValueError)"
  by (simp add: process_folder_def scan_def Let_def folders_mixed images_mixed folder_images_def
      dirname_def head_len_def rstrip_sep_def sep_def read_image_def exif_mixed_def
      split_def is_space_def)

subsection \<open>Images of the subfolders\<close>

lemma path_join_valid:
  "valid_name b \<Longrightarrow>
   path_join a b = (if a = [] \<or> last a = sep then a @ b else a @ sep # b)"
  by (cases b) (auto simp: path_join_def valid_name_def)

lemma length_path_join: "valid_name b \<Longrightarrow> length a < length (path_join a b)"
  by (auto simp: path_join_valid) (simp_all add: valid_name_def)

lemma last_path_join: "valid_name b \<Longrightarrow> path_join a b \<noteq> [] \<and> last (path_join a b) \<noteq> sep"
  by (auto simp: path_join_valid valid_name_def dest: last_in_set)

lemma takeWhile_rev_name:
  "sep \<notin> set b \<Longrightarrow> takeWhile (\<lambda>c. c \<noteq> sep) (rev b @ xs) = rev b @ takeWhile (\<lambda>c. c \<noteq> sep) xs"
  by (rule takeWhile_append2) auto

lemma head_len_join:
  assumes "valid_name b"
  shows "head_len (path_join a b) = (if a = [] \<or> last a = sep then length a else Suc (length a))"
proof -
  have b: "sep \<notin> set b" using assms by (simp add: valid_name_def)
  show ?thesis
  proof (cases "a = [] \<or> last a = sep")
    case True
    then have "takeWhile (\<lambda>c. c \<noteq> sep) (rev a) = []"
      by (auto simp: takeWhile_eq_Nil_iff hd_rev)
    then show ?thesis using True assms
      by (simp add: head_len_def path_join_valid takeWhile_rev_name [OF b])
  next
    case False
    then show ?thesis using assms
      by (simp add: head_len_def path_join_valid takeWhile_rev_name [OF b])
  qed
qed

lemma basename_join:
  assumes "valid_name b"
  shows "basename (path_join a b) = b"
proof -
  have "drop (if a = [] \<or> last a = sep then length a else Suc (length a)) (path_join a b) = b"
    using assms by (simp add: path_join_valid)
  then show ?thesis
    by (simp only: basename_def head_len_join [OF assms])
qed

lemma length_rstrip_sep: "length (rstrip_sep s) \<le> length s"
  by (simp add: rstrip_sep_def) (metis length_dropWhile_le length_rev)

lemma rstrip_sep_folder: "a \<noteq> [] \<Longrightarrow> last a \<noteq> sep \<Longrightarrow> rstrip_sep (a @ [sep]) = a"
proof -
  assume a: "a \<noteq> []" "last a \<noteq> sep"
  then have "dropWhile (\<lambda>c. c = sep) (rev a) = rev a"
    by (cases "rev a") (auto simp: hd_rev dest: arg_cong [where f = hd])
  then show ?thesis by (simp add: rstrip_sep_def)
qed

lemma dirname_join_folder:
  assumes "valid_name b" "a \<noteq> []" "last a \<noteq> sep"
  shows "dirname (path_join a b) = a"
proof -
  have hl: "head_len (path_join a b) = Suc (length a)"
    using assms by (simp add: head_len_join)
  have pj: "path_join a b = a @ sep # b"
    using assms by (simp add: path_join_valid)
  have h: "take (head_len (path_join a b)) (path_join a b) = a @ [sep]"
    by (simp only: hl) (simp add: pj)
  have "a @ [sep] \<noteq> replicate (Suc (length a)) sep"
  proof
    assume "a @ [sep] = replicate (Suc (length a)) sep"
    then have "set (a @ [sep]) \<subseteq> {sep}" by (metis set_replicate_conv_if subset_insertI order_refl empty_subsetI)
    then have "last a = sep" using assms(2) by (auto dest: last_in_set)
    then show False using assms(3) by simp
  qed
  then show ?thesis
    using assms by (simp add: dirname_def h Let_def rstrip_sep_folder)
qed

lemma length_dirname_join:
  assumes "valid_name b"
  shows "length (dirname (path_join a b)) \<le> length a"
proof (cases "a = [] \<or> last a = sep")
  case True
  then have hl: "head_len (path_join a b) = length a"
    using assms by (simp add: head_len_join)
  have pj: "path_join a b = a @ b"
    using assms True by (simp add: path_join_valid)
  have h: "take (head_len (path_join a b)) (path_join a b) = a"
    by (simp only: hl) (simp add: pj)
  show ?thesis
    by (simp add: dirname_def h Let_def length_rstrip_sep)
next
  case False
  then show ?thesis using dirname_join_folder [OF assms] by simp
qed

lemma os_walk_entries:
  "valid_tree t \<Longrightarrow> e \<in> set (os_walk root t) \<Longrightarrow>
   length root \<le> length (fst e) \<and> list_all valid_name (fst (snd e)) \<and> list_all valid_name (snd (snd e))"
proof (induction root t arbitrary: e rule: os_walk.induct)
  case (1 root subs fs)
  from "1.prems"(2) consider "e = (root, map fst subs, fs)"
    | p where "p \<in> set subs" "e \<in> set (os_walk (path_join root (fst p)) (snd p))"
    by auto
  then show ?case
  proof cases
    case 1
    then show ?thesis using "1.prems"(1) by (auto simp: list_all_iff)
  next
    case 2
    then have v: "valid_name (fst p)" "valid_tree (snd p)"
      using "1.prems"(1) by (auto simp: list_all_iff)
    from "1.IH" [OF 2(1) v(2) 2(2)] length_path_join [OF v(1), of root]
    show ?thesis by simp
  qed
qed

lemma folders_longer:
  assumes "valid_tree t" "folder \<in> set (folders_of (os_walk root t))"
  shows "length root < length folder \<and> folder \<noteq> [] \<and> last folder \<noteq> sep"
proof -
  from assms(2) obtain r dirs fs d where e: "(r, dirs, fs) \<in> set (os_walk root t)"
    and d: "d \<in> set dirs" and f: "folder = path_join r d"
    by (auto simp: folders_of_def)
  from os_walk_entries [OF assms(1) e] d have "length root \<le> length r" "valid_name d"
    by (auto simp: list_all_iff)
  then show ?thesis
    using length_path_join [of d r] last_path_join [of d r] by (simp add: f)
qed

lemma images_from:
  assumes "valid_tree t" "p \<in> set (images_of (os_walk root t))"
  shows "\<exists>r dirs fs f. (r, dirs, fs) \<in> set (os_walk root t) \<and> f \<in> set fs \<and> is_jpg f
           \<and> valid_name f \<and> p = path_join r f"
proof -
  from assms(2) obtain r dirs fs f where e: "(r, dirs, fs) \<in> set (os_walk root t)"
    and f: "f \<in> set fs" "is_jpg f" "p = path_join r f"
    by (auto simp: images_of_def)
  from os_walk_entries [OF assms(1) e] f(1) have "valid_name f" by (auto simp: list_all_iff)
  then show ?thesis using e f by blast
qed

lemma opened_iff:
  "(folder, p) \<in> set (opened w) \<longleftrightarrow>
     folder \<in> set (folders_of w) \<and> p \<in> set (images_of w) \<and> dirname p = folder"
  by (auto simp: opened_def folder_images_def)

lemma opened_subfolder:
  assumes "valid_tree tree" "(folder, p) \<in> set (opened (os_walk parent tree))"
  shows "folder \<in> set (folders_of (os_walk parent tree)) \<and> dirname p = folder \<and>
         is_jpg (basename p) \<and> p \<notin> set (map (path_join parent) (files tree))"
proof -
  from assms(2) have fo: "folder \<in> set (folders_of (os_walk parent tree))"
    and im: "p \<in> set (images_of (os_walk parent tree))" and dn: "dirname p = folder"
    by (simp_all add: opened_iff)
  from images_from [OF assms(1) im] obtain r f where f: "is_jpg f" "valid_name f" "p = path_join r f"
    by blast
  then have jpg: "is_jpg (basename p)" by (simp add: basename_join)
  have "p \<notin> set (map (path_join parent) (files tree))"
  proof
    assume "p \<in> set (map (path_join parent) (files tree))"
    then obtain f0 where f0: "f0 \<in> set (files tree)" "p = path_join parent f0" by auto
    have "valid_name f0" using assms(1) f0(1) by (cases tree) (auto simp: list_all_iff)
    then have "length (dirname p) \<le> length parent"
      by (simp add: f0(2) length_dirname_join)
    moreover have "length parent < length folder"
      using folders_longer [OF assms(1) fo] by simp
    ultimately show False using dn by simp
  qed
  then show ?thesis using fo dn jpg by simp
qed

lemma lower_char_cases:
  assumes "lower_char x = y"
  shows "x = y \<or> (is_upper x \<and> (of_char y :: nat) = of_char x + 32)"
proof (cases "is_upper x")
  case False
  then show ?thesis using assms by (simp add: lower_char_def)
next
  case True
  then have "(of_char x :: nat) + 32 < 256" by (auto simp: is_upper_def)
  moreover have "y = char_of (of_char x + 32 :: nat)" using assms True by (simp add: lower_char_def)
  ultimately have "(of_char y :: nat) = of_char x + 32" by simp
  then show ?thesis using True by simp
qed

lemma of_char_eq_iff: "(of_char x :: nat) = of_char y \<longleftrightarrow> x = y"
  by (metis char_of_char)

lemma lower_dot: "lower_char x = CHR ''.'' \<Longrightarrow> x = CHR ''.''"
  by (drule lower_char_cases) (auto simp: is_upper_def)

lemma lower_j: "lower_char x = CHR ''j'' \<Longrightarrow> x = CHR ''j'' \<or> x = CHR ''J''"
proof (drule lower_char_cases, elim disjE conjE)
  assume "(of_char CHR ''j'' :: nat) = of_char x + 32"
  then have "(of_char x :: nat) = of_char CHR ''J''" by simp
  then have "x = CHR ''J''" by (simp only: of_char_eq_iff)
  then show ?thesis by simp
qed simp

lemma lower_p: "lower_char x = CHR ''p'' \<Longrightarrow> x = CHR ''p'' \<or> x = CHR ''P''"
proof (drule lower_char_cases, elim disjE conjE)
  assume "(of_char CHR ''p'' :: nat) = of_char x + 32"
  then have "(of_char x :: nat) = of_char CHR ''P''" by simp
  then have "x = CHR ''P''" by (simp only: of_char_eq_iff)
  then show ?thesis by simp
qed simp

lemma lower_g: "lower_char x = CHR ''g'' \<Longrightarrow> x = CHR ''g'' \<or> x = CHR ''G''"
proof (drule lower_char_cases, elim disjE conjE)
  assume "(of_char CHR ''g'' :: nat) = of_char x + 32"
  then have "(of_char x :: nat) = of_char CHR ''G''" by simp
  then have "x = CHR ''G''" by (simp only: of_char_eq_iff)
  then show ?thesis by simp
qed simp

lemma is_jpg_spelling:
  assumes "is_jpg f"
  shows "drop (length f - 4) f \<in>
           {''.jpg'', ''.jpG'', ''.jPg'', ''.jPG'', ''.Jpg'', ''.JpG'', ''.JPg'', ''.JPG''}"
proof -
  from assms have len: "4 \<le> length f"
    and low: "map lower_char (drop (length f - 4) f) = ''.jpg''"
    by (simp_all add: is_jpg_def endswith_def lower_def drop_map eval_nat_numeral)
  from low obtain a b c d where e: "drop (length f - 4) f = [a, b, c, d]"
    and l: "lower_char a = CHR ''.''" "lower_char b = CHR ''j''" "lower_char c = CHR ''p''"
      "lower_char d = CHR ''g''"
    by (auto simp: map_eq_Cons_conv)
  from lower_dot [OF l(1)] lower_j [OF l(2)] lower_p [OF l(3)] lower_g [OF l(4)]
  show ?thesis by (auto simp: e)
qed

lemma small_letters:
  "char_of (112::nat) = CHR 0x70" "char_of (106::nat) = CHR 0x6A" "char_of (103::nat) = CHR 0x67"
  by (simp_all add: char_of_def bit_simps)

lemma walk_example:
  "os_walk ''/data'' example_tree
   = [(''/data'', [''P1''], [''top.jpg'']), (''/data/P1'', [], [''a.jpg'', ''b.JPG'', ''notes.txt''])]"
  by (simp add: example_tree_def path_join_def sep_def)

lemma folders_example: "folders_of (os_walk ''/data'' example_tree) = [''/data/P1'']"
  by (simp add: walk_example folders_of_def path_join_def sep_def)

lemma images_example:
  "images_of (os_walk ''/data'' example_tree)
   = [''/data/top.jpg'', ''/data/P1/a.jpg'', ''/data/P1/b.JPG'']"
  by (simp add: walk_example path_defs small_letters)

lemma opened_example:
  "opened (os_walk ''/data'' example_tree)
   = [(''/data/P1'', ''/data/P1/a.jpg''), (''/data/P1'', ''/data/P1/b.JPG'')]"
  by (simp add: opened_def folders_example images_example folder_images_def dirname_def head_len_def
      rstrip_sep_def sep_def)

lemma scan_example:
  "scan example_tree exif_stamped ''/data'' ''VISUAL'' =
     Inr \<lparr>found = [new_props ''2024:05:01'' ''09:00:00'' ''a.jpg'' ''P1'' ''VISUAL'',
                  new_props ''2024:05:01'' ''09:00:00'' ''b.JPG'' ''P1'' ''VISUAL''],
          log = []\<rparr>"
  by (simp add: scan_def Let_def folders_example images_example folder_images_def
      dirname_def basename_def head_len_def rstrip_sep_def sep_def read_image_def exif_stamped_def
      split_def is_space_def)

lemma entry_of_fields:
  "r \<in> set (entry_of exif folder_type fp) \<Longrightarrow>
   Image r = basename (snd fp) \<and> Pole r = basename (fst fp)"
  by (auto simp: entry_of_def new_props_def split: exif_read.splits option.splits if_splits)

lemma scan_found_from:
  assumes "scan tree exif parent_folder folder_type = Inl (e, st)
           \<or> scan tree exif parent_folder folder_type = Inr st"
    and "r \<in> set (found st)"
  shows "\<exists>fp \<in> set (opened (os_walk parent_folder tree)). r \<in> set (entry_of exif folder_type fp)"
proof -
  have "r \<in> set (concat (map (entry_of exif folder_type) (opened (os_walk parent_folder tree))))
        \<or> r \<in> set (concat (map (entry_of exif folder_type)
             (takeWhile (\<lambda>fp. well_stamped (exif (snd fp))) (opened (os_walk parent_folder tree)))))"
    using assms by (auto simp: scan_eq after_reading_def split: if_splits)
  then show ?thesis
    by (auto dest: set_takeWhileD)
qed

lemma example_tree_valid: "valid_tree example_tree"
  by (simp add: example_tree_def valid_name_def sep_def)

text \<open>
  C10. On every tree of valid names: the root is not among the enumerated folders; every
  image the script opens lies directly in an enumerated folder, its file name passes the
  test of line 18 and so ends in a dot and the letters j, p, g, each small or capital,
  and it is not a file of the root folder itself. Every record of the scan, also of a
  scan that an exception ends, comes from an opened image and carries its file name,
  which ends in this way, and the name of its folder. Nothing here depends on what the
  images hold.
\<close>

theorem only_jpg_of_subfolders:
  assumes "valid_tree tree"
  shows "parent_folder \<notin> set (folders_of (os_walk parent_folder tree)) \<and>
         list_all (\<lambda>fp. fst fp \<in> set (folders_of (os_walk parent_folder tree)) \<and>
                        dirname (snd fp) = fst fp \<and>
                        is_jpg (basename (snd fp)) \<and>
                        drop (length (basename (snd fp)) - 4) (basename (snd fp))
                          \<in> {''.jpg'', ''.jpG'', ''.jPg'', ''.jPG'',
                              ''.Jpg'', ''.JpG'', ''.JPg'', ''.JPG''} \<and>
                        snd fp \<notin> set (map (path_join parent_folder) (files tree)))
           (opened (os_walk parent_folder tree)) \<and>
         list_all (\<lambda>r. \<exists>fp \<in> set (opened (os_walk parent_folder tree)).
                         Image r = basename (snd fp) \<and> Pole r = basename (fst fp) \<and>
                         is_jpg (Image r) \<and>
                         drop (length (Image r) - 4) (Image r)
                           \<in> {''.jpg'', ''.jpG'', ''.jPg'', ''.jPG'',
                               ''.Jpg'', ''.JpG'', ''.JPg'', ''.JPG''})
           (case scan tree exif parent_folder folder_type of
              Inl raised \<Rightarrow> found (snd raised)
            | Inr st \<Rightarrow> found st)"
proof -
  have root: "parent_folder \<notin> set (folders_of (os_walk parent_folder tree))"
    using folders_longer [OF assms, of parent_folder parent_folder] by auto
  have op: "list_all (\<lambda>fp. fst fp \<in> set (folders_of (os_walk parent_folder tree)) \<and>
                        dirname (snd fp) = fst fp \<and>
                        is_jpg (basename (snd fp)) \<and>
                        drop (length (basename (snd fp)) - 4) (basename (snd fp))
                          \<in> {''.jpg'', ''.jpG'', ''.jPg'', ''.jPG'',
                              ''.Jpg'', ''.JpG'', ''.JPg'', ''.JPG''} \<and>
                        snd fp \<notin> set (map (path_join parent_folder) (files tree)))
           (opened (os_walk parent_folder tree))"
    unfolding list_all_iff
  proof
    fix fp assume "fp \<in> set (opened (os_walk parent_folder tree))"
    then have "(fst fp, snd fp) \<in> set (opened (os_walk parent_folder tree))" by simp
    from opened_subfolder [OF assms this]
    show "fst fp \<in> set (folders_of (os_walk parent_folder tree)) \<and>
                        dirname (snd fp) = fst fp \<and>
                        is_jpg (basename (snd fp)) \<and>
                        drop (length (basename (snd fp)) - 4) (basename (snd fp))
                          \<in> {''.jpg'', ''.jpG'', ''.jPg'', ''.jPG'',
                              ''.Jpg'', ''.JpG'', ''.JPg'', ''.JPG''} \<and>
                        snd fp \<notin> set (map (path_join parent_folder) (files tree))"
      using is_jpg_spelling [of "basename (snd fp)"] by blast
  qed
  have rec: "list_all (\<lambda>r. \<exists>fp \<in> set (opened (os_walk parent_folder tree)).
                         Image r = basename (snd fp) \<and> Pole r = basename (fst fp) \<and>
                         is_jpg (Image r) \<and>
                         drop (length (Image r) - 4) (Image r)
                           \<in> {''.jpg'', ''.jpG'', ''.jPg'', ''.jPG'',
                               ''.Jpg'', ''.JpG'', ''.JPg'', ''.JPG''})
           (case scan tree exif parent_folder folder_type of
              Inl raised \<Rightarrow> found (snd raised)
            | Inr st \<Rightarrow> found st)"
    unfolding list_all_iff
  proof
    fix r
    assume r: "r \<in> set (case scan tree exif parent_folder folder_type of
              Inl raised \<Rightarrow> found (snd raised) | Inr st \<Rightarrow> found st)"
    have "\<exists>fp \<in> set (opened (os_walk parent_folder tree)). r \<in> set (entry_of exif folder_type fp)"
    proof (cases "scan tree exif parent_folder folder_type")
      case (Inl raised)
      then have "scan tree exif parent_folder folder_type = Inl (fst raised, snd raised)" by simp
      moreover have "r \<in> set (found (snd raised))" using r Inl by simp
      ultimately show ?thesis using scan_found_from by blast
    next
      case (Inr st)
      moreover have "r \<in> set (found st)" using r Inr by simp
      ultimately show ?thesis using scan_found_from by blast
    qed
    then obtain fp where fp: "fp \<in> set (opened (os_walk parent_folder tree))"
      "r \<in> set (entry_of exif folder_type fp)" by blast
    from op fp(1) have j: "is_jpg (basename (snd fp))" by (simp add: list_all_iff)
    from entry_of_fields [OF fp(2)] have f: "Image r = basename (snd fp)" "Pole r = basename (fst fp)"
      by simp_all
    show "\<exists>fp \<in> set (opened (os_walk parent_folder tree)).
                         Image r = basename (snd fp) \<and> Pole r = basename (fst fp) \<and>
                         is_jpg (Image r) \<and>
                         drop (length (Image r) - 4) (Image r)
                           \<in> {''.jpg'', ''.jpG'', ''.jPg'', ''.jPG'',
                               ''.Jpg'', ''.JpG'', ''.JPg'', ''.JPG''}"
      using fp(1) f j is_jpg_spelling [of "Image r"] by auto
  qed
  show ?thesis using root op rec by blast
qed

theorem only_jpg_of_subfolders_witness:
  "valid_tree example_tree \<and>
   (''/data'' \<notin> set (folders_of (os_walk ''/data'' example_tree)) \<and>
         list_all (\<lambda>fp. fst fp \<in> set (folders_of (os_walk ''/data'' example_tree)) \<and>
                        dirname (snd fp) = fst fp \<and>
                        is_jpg (basename (snd fp)) \<and>
                        drop (length (basename (snd fp)) - 4) (basename (snd fp))
                          \<in> {''.jpg'', ''.jpG'', ''.jPg'', ''.jPG'',
                              ''.Jpg'', ''.JpG'', ''.JPg'', ''.JPG''} \<and>
                        snd fp \<notin> set (map (path_join ''/data'') (files example_tree)))
           (opened (os_walk ''/data'' example_tree)) \<and>
         list_all (\<lambda>r. \<exists>fp \<in> set (opened (os_walk ''/data'' example_tree)).
                         Image r = basename (snd fp) \<and> Pole r = basename (fst fp) \<and>
                         is_jpg (Image r) \<and>
                         drop (length (Image r) - 4) (Image r)
                           \<in> {''.jpg'', ''.jpG'', ''.jPg'', ''.jPG'',
                               ''.Jpg'', ''.JpG'', ''.JPg'', ''.JPG''})
           (case scan example_tree exif_stamped ''/data'' ''VISUAL'' of
              Inl raised \<Rightarrow> found (snd raised)
            | Inr st \<Rightarrow> found st)) \<and>
   opened (os_walk ''/data'' example_tree)
     = [(''/data/P1'', ''/data/P1/a.jpg''), (''/data/P1'', ''/data/P1/b.JPG'')] \<and>
   scan example_tree exif_stamped ''/data'' ''VISUAL'' =
     Inr \<lparr>found = [new_props ''2024:05:01'' ''09:00:00'' ''a.jpg'' ''P1'' ''VISUAL'',
                  new_props ''2024:05:01'' ''09:00:00'' ''b.JPG'' ''P1'' ''VISUAL''],
          log = []\<rparr>"
  by (rule conjI [OF example_tree_valid conjI [OF only_jpg_of_subfolders [OF example_tree_valid]
        conjI [OF opened_example scan_example]]])

end
